theory Spec2Isabelle
  imports Main "HOL-Library.Word" "HOL-Library.Signed_Division"
begin

section \<open>Machine types of the target\<close>

text \<open>
  The firmware is built with avr-gcc: \<open>int\<close> is 16 bits wide, so \<open>int16_t\<close> is
  \<open>int\<close> and \<open>uint16_t\<close> is \<open>unsigned int\<close>. Both are modelled as \<open>16 word\<close>;
  a signed comparison of the source is \<open><s\<close> / \<open>\<le>s\<close>, an unsigned one is \<open><\<close> / \<open>\<le>\<close>.
  Array indices, channel numbers and loop counters (\<open>uint8_t\<close> in the source) never
  leave the range 0..255 in the code modelled here and are natural numbers.
\<close>

type_synonym int16 = "16 word"
type_synonym uint16 = "16 word"

section \<open>servo.h: constants\<close>

definition SERVO_NUM :: nat where
  "SERVO_NUM = 11"

definition SERVO_PULSE_MIN :: int16 where
  "SERVO_PULSE_MIN = 500"

definition SERVO_PULSE_MAX :: int16 where
  "SERVO_PULSE_MAX = 2500"

definition SERVO_NO_PULSE :: int16 where
  "SERVO_NO_PULSE = - 1"

definition SERVO_RC_TIMEOUT_MAX :: nat where
  "SERVO_RC_TIMEOUT_MAX = 10"

section \<open>servo.c: the pulse value array\<close>

text \<open>
  \<open>uint16_t servo_value[12]\<close>: the pulse length of each output in counter ticks of
  half a microsecond; \<open>SERVO_NO_PULSE\<close> is stored as \<open>0xFFFF\<close>.
\<close>

type_synonym servo_values = "uint16 list"

text \<open>\<open>servo_init\<close>: the first loop writes \<open>SERVO_NO_PULSE\<close> into all twelve entries.\<close>

definition servo_init :: servo_values where
  "servo_init = replicate 12 SERVO_NO_PULSE"

text \<open>
  \<open>servo_set(servo, time)\<close>: a channel number outside 1..SERVO_NUM changes nothing; a time
  at or below \<open>SERVO_NO_PULSE\<close> (signed) stores the sentinel; any other time is clipped to
  \<open>SERVO_PULSE_MIN\<close>..\<open>SERVO_PULSE_MAX\<close> and stored doubled.
\<close>

definition servo_set :: "nat \<Rightarrow> int16 \<Rightarrow> servo_values \<Rightarrow> servo_values" where
  "servo_set servo time sv =
     (if servo = 0 \<or> servo > SERVO_NUM then sv
      else if time \<le>s SERVO_NO_PULSE then sv[servo - 1 := SERVO_NO_PULSE]
      else
        let t1 = (if SERVO_PULSE_MAX <s time then SERVO_PULSE_MAX else time);
            t2 = (if t1 <s SERVO_PULSE_MIN then SERVO_PULSE_MIN else t1)
        in sv[servo - 1 := 2 * t2])"

text \<open>
  \<open>servo_read(servo)\<close>: 0 for a channel number outside 1..SERVO_NUM, the sentinel when the
  entry holds it, otherwise half the stored (unsigned) value.
\<close>

definition servo_read :: "nat \<Rightarrow> servo_values \<Rightarrow> int16" where
  "servo_read servo sv =
     (if servo = 0 \<or> servo > SERVO_NUM then 0
      else if sv ! (servo - 1) = SERVO_NO_PULSE then SERVO_NO_PULSE
      else sv ! (servo - 1) div 2)"

text \<open>
  The value \<open>servo_set\<close> stores (before doubling) for a time above the sentinel: the two
  clipping statements of the source in sequence.
\<close>

definition clip :: "int16 \<Rightarrow> int16" where
  "clip time =
     (let t1 = (if SERVO_PULSE_MAX <s time then SERVO_PULSE_MAX else time)
      in if t1 <s SERVO_PULSE_MIN then SERVO_PULSE_MIN else t1)"

text \<open>
  A run of the Pulse Engine's setter: \<open>servo_init\<close> followed by any sequence of
  \<open>servo_set(servo, time)\<close> calls, given as the list of their arguments.
\<close>

definition servo_set_calls :: "(nat \<times> int16) list \<Rightarrow> servo_values \<Rightarrow> servo_values" where
  "servo_set_calls calls sv = fold (\<lambda>(servo, time). servo_set servo time) calls sv"

text \<open>
  What every entry of \<open>servo_value\<close> holds after \<open>servo_init\<close> and calls of \<open>servo_set\<close>:
  the sentinel, or a tick count whose half is a width between \<open>SERVO_PULSE_MIN\<close> and
  \<open>SERVO_PULSE_MAX\<close>.
\<close>

definition servo_entry_ok :: "uint16 \<Rightarrow> bool" where
  "servo_entry_ok v =
     (v = SERVO_NO_PULSE \<or> (SERVO_PULSE_MIN \<le>s v div 2 \<and> v div 2 \<le>s SERVO_PULSE_MAX))"

section \<open>servo.c: reading the RC input\<close>

text \<open>
  The variables of the RC capture. \<open>servo_gotpulse\<close>, \<open>servo_rcvalid\<close> are \<open>uint8_t\<close>
  flags; \<open>servo_rctimeout\<close> is a \<open>uint8_t\<close> that is incremented only while it is at most
  \<open>SERVO_RC_TIMEOUT_MAX\<close>, so it never wraps. \<open>ices1\<close> is the edge select bit of
  \<open>TCCR1B\<close> (set: the next capture is a rising edge).
\<close>

record rc_state =
  servo_rcbegin :: int16
  servo_rcend :: int16
  servo_gotpulse :: nat
  servo_rctimeout :: nat
  servo_rcvalid :: nat
  servo_rctemp :: int16
  servo_rcpulse :: int16
  ices1 :: bool

text \<open>\<open>x / 2\<close> on an \<open>int16_t\<close>: C division truncates towards zero.\<close>

definition half_int16 :: "int16 \<Rightarrow> int16" where
  "half_int16 x = word_of_int (sint x sdiv 2)"

text \<open>\<open>servo_RCread\<close>: the value returned and the state left behind.\<close>

definition servo_RCread :: "rc_state \<Rightarrow> int16 \<times> rc_state" where
  "servo_RCread s =
     (if servo_rctimeout s \<ge> SERVO_RC_TIMEOUT_MAX
      then (SERVO_NO_PULSE, s\<lparr>servo_rcpulse := SERVO_NO_PULSE\<rparr>)
      else if servo_rctimeout s = 0 \<and> servo_rcvalid s \<noteq> 0
      then (half_int16 (servo_rctemp s),
            s\<lparr>servo_rcpulse := half_int16 (servo_rctemp s), servo_rcvalid := 0\<rparr>)
      else (servo_rcpulse s, s))"

text \<open>\<open>servo_doRCread_init\<close> (the register setup is not part of the state).\<close>

definition servo_doRCread_init :: "rc_state \<Rightarrow> rc_state" where
  "servo_doRCread_init s =
     s\<lparr>servo_rcbegin := 0, servo_rcend := 0, servo_gotpulse := 0, servo_rctimeout := 0,
       servo_rcpulse := SERVO_NO_PULSE\<rparr>"

text \<open>\<open>servo_doRCread_start\<close>: called when the long pause begins.\<close>

definition servo_doRCread_start :: "rc_state \<Rightarrow> rc_state" where
  "servo_doRCread_start s = s\<lparr>ices1 := True, servo_gotpulse := 0\<rparr>"

text \<open>
  \<open>ISR(TIMER1_CAPT_vect)\<close>: \<open>icr1\<close> is the captured counter value. After the falling edge
  the handler disables further capture interrupts until the next long pause.
\<close>

definition TIMER1_CAPT_vect :: "int16 \<Rightarrow> rc_state \<Rightarrow> rc_state" where
  "TIMER1_CAPT_vect icr1 s =
     (if ices1 s then s\<lparr>servo_rcbegin := icr1, ices1 := False\<rparr>
      else s\<lparr>servo_rcend := icr1, servo_gotpulse := 1\<rparr>)"

text \<open>\<open>servo_doRCread_end\<close>: called when the long pause is over.\<close>

definition servo_doRCread_end :: "rc_state \<Rightarrow> rc_state" where
  "servo_doRCread_end s =
     (if servo_gotpulse s \<noteq> 0
      then s\<lparr>servo_rctimeout := 0, servo_rctemp := servo_rcend s - servo_rcbegin s,
             servo_rcvalid := 1\<rparr>
      else if servo_rctimeout s \<le> SERVO_RC_TIMEOUT_MAX
      then s\<lparr>servo_rctimeout := servo_rctimeout s + 1\<rparr>
      else s)"

text \<open>One idle gap in which no pulse is captured, and one in which a whole pulse is.\<close>

definition rc_gap_missed :: "rc_state \<Rightarrow> rc_state" where
  "rc_gap_missed s = servo_doRCread_end (servo_doRCread_start s)"

definition rc_gap_captured :: "int16 \<Rightarrow> int16 \<Rightarrow> rc_state \<Rightarrow> rc_state" where
  "rc_gap_captured rise fall s =
     servo_doRCread_end (TIMER1_CAPT_vect fall (TIMER1_CAPT_vect rise (servo_doRCread_start s)))"

section \<open>realtime.c: registries\<close>

text \<open>
  A registered timer is the address of a \<open>uint16_t\<close> owned by the registrant, a registered
  function is a function pointer. Both are natural numbers here, 0 being the null pointer.
  \<open>timer_mem\<close> gives the value stored at each timer address.
\<close>

definition RT_MAX_TIMERS :: nat where
  "RT_MAX_TIMERS = 10"

definition RT_MAX_FUNCTIONS :: nat where
  "RT_MAX_FUNCTIONS = 3"


text \<open>
  The loop shared by \<open>rt_add_timer\<close> and \<open>rt_add_function\<close>: scan the array from index
  \<open>i\<close> up to the capacity, store the pointer into the first entry that is null and return
  TRUE; return FALSE when no entry is null.
\<close>

function rt_add_loop :: "nat \<Rightarrow> nat \<Rightarrow> nat \<Rightarrow> nat list \<Rightarrow> bool \<times> nat list" where
  "rt_add_loop cap i p arr =
     (if i < cap
      then (if arr ! i = 0 then (True, arr[i := p]) else rt_add_loop cap (i + 1) p arr)
      else (False, arr))"
  by pat_completeness auto
termination
  by (relation "measure (\<lambda>(cap, i, p, arr). cap - i)") auto

definition rt_add_timer :: "nat \<Rightarrow> nat list \<Rightarrow> bool \<times> nat list" where
  "rt_add_timer atimer rt_timer_array = rt_add_loop RT_MAX_TIMERS 0 atimer rt_timer_array"

definition rt_add_function :: "nat \<Rightarrow> nat list \<Rightarrow> bool \<times> nat list" where
  "rt_add_function afunction rt_function_array =
     rt_add_loop RT_MAX_FUNCTIONS 0 afunction rt_function_array"

text \<open>The loop shared by \<open>rt_remove_timer\<close> and \<open>rt_remove_function\<close>.\<close>

function rt_remove_loop :: "nat \<Rightarrow> nat \<Rightarrow> nat \<Rightarrow> nat list \<Rightarrow> bool \<times> nat list" where
  "rt_remove_loop cap i p arr =
     (if i < cap
      then (if arr ! i = p then (True, arr[i := 0]) else rt_remove_loop cap (i + 1) p arr)
      else (False, arr))"
  by pat_completeness auto
termination
  by (relation "measure (\<lambda>(cap, i, p, arr). cap - i)") auto

definition rt_remove_timer :: "nat \<Rightarrow> nat list \<Rightarrow> bool \<times> nat list" where
  "rt_remove_timer atimer rt_timer_array = rt_remove_loop RT_MAX_TIMERS 0 atimer rt_timer_array"

definition rt_remove_function :: "nat \<Rightarrow> nat list \<Rightarrow> bool \<times> nat list" where
  "rt_remove_function afunction rt_function_array =
     rt_remove_loop RT_MAX_FUNCTIONS 0 afunction rt_function_array"

text \<open>A registry is full when none of its entries is null.\<close>

definition rt_full :: "nat \<Rightarrow> nat list \<Rightarrow> bool" where
  "rt_full cap arr = (length arr = cap \<and> list_all (\<lambda>p. p \<noteq> 0) arr)"

section \<open>realtime.c: the tick handlers\<close>


text \<open>
  The timer loop of \<open>ISR(TIMER0_COMP_vect)\<close> (the build with \<open>_USE_32KHZ_\<close> defined): as
  written there, \<open>if (!*timerpointer) (*timerpointer)--;\<close>.
\<close>

function rt_timers_COMP :: "nat \<Rightarrow> nat list \<Rightarrow> (nat \<Rightarrow> uint16) \<Rightarrow> (nat \<Rightarrow> uint16)" where
  "rt_timers_COMP i arr mem =
     (if i < RT_MAX_TIMERS
      then (if arr ! i \<noteq> 0
            then rt_timers_COMP (i + 1) arr
                   (if mem (arr ! i) = 0 then mem(arr ! i := mem (arr ! i) - 1) else mem)
            else rt_timers_COMP (i + 1) arr mem)
      else mem)"
  by pat_completeness auto
termination
  by (relation "measure (\<lambda>(i, arr, mem). RT_MAX_TIMERS - i)") auto

text \<open>
  The state of the Tick Service. The clock bytes never exceed their wrap values (100, 60,
  60, 24) and \<open>countseconds\<close>, \<open>counter_phase\<close> are the handlers' static locals.
\<close>

record rt_state =
  rt_timer_array :: "nat list"
  rt_function_array :: "nat list"
  timer_mem :: "nat \<Rightarrow> uint16"
  rt_count1 :: uint16
  rt_count2 :: uint16
  rt_seconds :: uint16
  hundreds :: nat
  seconds :: nat
  minutes :: nat
  hours :: nat
  countseconds :: nat
  counter_phase :: nat

definition increment_time :: "rt_state \<Rightarrow> rt_state" where
  "increment_time s =
     (let s1 = s\<lparr>seconds := seconds s + 1\<rparr> in
      if seconds s1 = 60 then
        (let s2 = s1\<lparr>seconds := 0, minutes := minutes s1 + 1\<rparr> in
         if minutes s2 = 60 then
           (let s3 = s2\<lparr>minutes := 0, hours := hours s2 + 1\<rparr> in
            if hours s3 = 24 then s3\<lparr>hours := 0\<rparr> else s3)
         else s2)
      else s1)"

text \<open>
  \<open>realtime_do\<close>: the registered functions that are called, in the order of the array
  (their bodies belong to the registrants).
\<close>

definition realtime_do :: "rt_state \<Rightarrow> nat list" where
  "realtime_do s = filter (\<lambda>f. f \<noteq> 0) (take RT_MAX_FUNCTIONS (rt_function_array s))"


text \<open>
  \<open>ISR(TIMER0_COMP_vect)\<close>, with 32 counts per second. Its two fixed count-down timers
  \<open>rt_ctrlegtimer\<close> and \<open>rt_blinktimer\<close> are not registry entries and are left out.
\<close>

definition TIMER0_COMP_vect :: "rt_state \<Rightarrow> rt_state \<times> nat list" where
  "TIMER0_COMP_vect s =
     (let s1 = s\<lparr>rt_count1 := rt_count1 s + 1, rt_count2 := rt_count2 s + 1\<rparr>;
          s2 = s1\<lparr>timer_mem := rt_timers_COMP 0 (rt_timer_array s1) (timer_mem s1)\<rparr>;
          s4 = s2\<lparr>countseconds := countseconds s2 + 1\<rparr>;
          s5 = (if countseconds s4 = 32
                then increment_time (s4\<lparr>rt_seconds := rt_seconds s4 + 1, countseconds := 0\<rparr>)
                else s4)
      in (s5, realtime_do s5))"

section \<open>sequencer.h: the layout of a frame\<close>

text \<open>
  A frame (row) of a sequence is \<open>SERVO_NUM + SEQUENCE_PARAMETERS\<close> words: the duration at
  index 0, the targets of servos 1..SERVO_NUM at indices 1..SERVO_NUM, then the speed
  override, the first and the last servo of the row. \<open>pgm_read_word\<close> of an entry is the
  entry as an unsigned 16-bit word. A sequence is the list of its rows; reading a row or an
  entry that does not exist is undefined in the source, and the theorems below assume the
  rows they read exist.
\<close>

definition SEQUENCE_PARAMETERS :: nat where
  "SEQUENCE_PARAMETERS = 4"

definition SEQUENCE_ROW :: nat where
  "SEQUENCE_ROW = SERVO_NUM + SEQUENCE_PARAMETERS"

definition SPEED_PARAM :: nat where
  "SPEED_PARAM = SEQUENCE_ROW - 3"

definition START_SERVO_PARAM :: nat where
  "START_SERVO_PARAM = SEQUENCE_ROW - 2"

definition END_SERVO_PARAM :: nat where
  "END_SERVO_PARAM = SEQUENCE_ROW - 1"

type_synonym sequence_t = "int16 list list"

definition pgm_read_word :: "sequence_t \<Rightarrow> nat \<Rightarrow> nat \<Rightarrow> uint16" where
  "pgm_read_word array step k = array ! step ! k"

section \<open>sequencer.c: state\<close>

text \<open>
  The globals of the sequencer, together with the Pulse Engine's \<open>servo_value\<close> array that
  \<open>servo_set\<close> and \<open>servo_read\<close> work on. \<open>sequence_array\<close> is a pointer to the bound
  table (\<open>None\<close>: the null pointer). \<open>seq_completion_callback\<close> is a function pointer (0:
  none); the callback's body belongs to the caller, so a call is recorded by appending the
  pointer to \<open>callback_log\<close>. \<open>sequence_step\<close> and \<open>sequence_length\<close> are \<open>uint8_t\<close>; the
  only increment of \<open>sequence_step\<close> happens below \<open>sequence_length - 1\<close>.
\<close>

record seq_state =
  seq_current :: "int16 list"
  seq_goal :: "int16 list"
  seq_timeout :: uint16
  seq_completion_callback :: nat
  servo_speed :: "int16 list"
  sequence_step :: nat
  sequence_started :: nat
  sequence_array :: "sequence_t option"
  sequence_length :: nat
  servo_value :: servo_values
  callback_log :: "nat list"

definition seq_add_completion_callback :: "nat \<Rightarrow> seq_state \<Rightarrow> seq_state" where
  "seq_add_completion_callback usercallback s = s\<lparr>seq_completion_callback := usercallback\<rparr>"

definition seq_remove_completion_callback :: "seq_state \<Rightarrow> seq_state" where
  "seq_remove_completion_callback s = s\<lparr>seq_completion_callback := 0\<rparr>"

definition seq_loadspeed :: "int16 list \<Rightarrow> seq_state \<Rightarrow> seq_state" where
  "seq_loadspeed speedarray s =
     fold (\<lambda>i s. s\<lparr>servo_speed := (servo_speed s)[i := speedarray ! i]\<rparr>) [0..<SERVO_NUM] s"

definition seq_resetspeed :: "seq_state \<Rightarrow> seq_state" where
  "seq_resetspeed s =
     fold (\<lambda>i s. s\<lparr>servo_speed := (servo_speed s)[i := 0]\<rparr>) [0..<SERVO_NUM] s"

text \<open>The call \<open>if(seq_completion_callback) seq_completion_callback();\<close>\<close>

definition call_completion_callback :: "seq_state \<Rightarrow> seq_state" where
  "call_completion_callback s =
     (if seq_completion_callback s \<noteq> 0
      then s\<lparr>callback_log := callback_log s @ [seq_completion_callback s]\<rparr>
      else s)"

section \<open>sequencer.c: loading and starting\<close>

text \<open>The body of the loop of \<open>seq_loadsequence\<close>, for servo \<open>i\<close> (1..SERVO_NUM).\<close>

definition loadsequence_body :: "nat \<Rightarrow> seq_state \<Rightarrow> seq_state" where
  "loadsequence_body i s =
     (let s1 = s\<lparr>seq_current := (seq_current s)[i - 1 := servo_read i (servo_value s)]\<rparr>
      in s1\<lparr>seq_goal := (seq_goal s1)[i - 1 := seq_current s1 ! (i - 1)]\<rparr>)"

definition seq_loadsequence :: "sequence_t \<Rightarrow> nat \<Rightarrow> seq_state \<Rightarrow> seq_state" where
  "seq_loadsequence array len s =
     fold loadsequence_body [1..<SERVO_NUM + 1]
       (s\<lparr>sequence_started := 0, sequence_step := 0,
          sequence_array := Some array, sequence_length := len\<rparr>)"

definition seq_startsequence :: "seq_state \<Rightarrow> seq_state" where
  "seq_startsequence s = s\<lparr>sequence_step := 0, sequence_started := 1\<rparr>"

definition seq_restartsequence :: "seq_state \<Rightarrow> seq_state" where
  "seq_restartsequence s = s\<lparr>sequence_started := 1\<rparr>"

definition seq_stopsequence :: "seq_state \<Rightarrow> seq_state" where
  "seq_stopsequence s = call_completion_callback (s\<lparr>sequence_started := 0, seq_timeout := 0\<rparr>)"

definition seq_jumptostep :: "nat \<Rightarrow> seq_state \<Rightarrow> seq_state" where
  "seq_jumptostep step s = (if step < sequence_length s then s\<lparr>sequence_step := step\<rparr> else s)"

section \<open>sequencer.c: committing a frame's targets\<close>

text \<open>
  The test that makes \<open>seq_setservopos\<close> skip servo \<open>i\<close>. The \<open>uint8_t\<close> counter is
  compared with the \<open>uint16_t\<close> results of \<open>pgm_read_word\<close>, an unsigned comparison, and the
  two comparisons are joined by \<open>&&\<close>.
\<close>

definition skip_servo :: "sequence_t \<Rightarrow> nat \<Rightarrow> nat \<Rightarrow> bool" where
  "skip_servo array step i =
     (of_nat i < pgm_read_word array step START_SERVO_PARAM
      \<and> of_nat i > pgm_read_word array step END_SERVO_PARAM)"

text \<open>The body of the loop of \<open>seq_setservopos\<close>, for servo \<open>i\<close> (1..SERVO_NUM).\<close>

definition setservopos_body :: "sequence_t \<Rightarrow> nat \<Rightarrow> nat \<Rightarrow> seq_state \<Rightarrow> seq_state" where
  "setservopos_body array step i s =
     (if skip_servo array step i then s
      else
        let s1 = s\<lparr>seq_goal := (seq_goal s)[i - 1 := pgm_read_word array step i]\<rparr>
        in if seq_goal s1 ! (i - 1) = SERVO_NO_PULSE
           then s1\<lparr>servo_value := servo_set i SERVO_NO_PULSE (servo_value s1)\<rparr>
           else s1)"

definition seq_setservopos :: "sequence_t \<Rightarrow> nat \<Rightarrow> seq_state \<Rightarrow> seq_state" where
  "seq_setservopos array step s = fold (setservopos_body array step) [1..<SERVO_NUM + 1] s"

section \<open>sequencer.c: the real time routine\<close>

text \<open>
  The first loop of \<open>seq_dosequence\<close>, body for index \<open>i\<close> (0..SERVO_NUM-1): move the
  current position of servo \<open>i + 1\<close> towards its goal. All arithmetic and comparisons are
  on \<open>int16_t\<close>.
\<close>

definition dosequence_body :: "sequence_t \<Rightarrow> nat \<Rightarrow> seq_state \<Rightarrow> seq_state" where
  "dosequence_body array i s =
     (let override_max_speed = pgm_read_word array (sequence_step s) SPEED_PARAM;
          maxspeed = (if override_max_speed \<noteq> - 1 then override_max_speed else servo_speed s ! i);
          delta = seq_goal s ! i - seq_current s ! i
      in if delta = 0 then s
         else if maxspeed = 0 \<or> seq_current s ! i = SERVO_NO_PULSE
         then
           (let s1 = s\<lparr>seq_current := (seq_current s)[i := seq_goal s ! i]\<rparr>
            in s1\<lparr>servo_value := servo_set (i + 1) (seq_current s1 ! i) (servo_value s1)\<rparr>)
         else
           (let s1 =
              (if 0 <s delta
               then (if maxspeed <s delta
                     then s\<lparr>seq_current := (seq_current s)[i := seq_current s ! i + maxspeed]\<rparr>
                     else s\<lparr>seq_current := (seq_current s)[i := seq_goal s ! i]\<rparr>)
               else (if delta <s maxspeed
                     then s\<lparr>seq_current := (seq_current s)[i := seq_current s ! i - maxspeed]\<rparr>
                     else s\<lparr>seq_current := (seq_current s)[i := seq_goal s ! i]\<rparr>))
            in s1\<lparr>servo_value := servo_set (i + 1) (seq_current s1 ! i) (servo_value s1)\<rparr>))"

definition dosequence_move :: "sequence_t \<Rightarrow> seq_state \<Rightarrow> seq_state" where
  "dosequence_move array s = fold (dosequence_body array) [0..<SERVO_NUM] s"

text \<open>
  What the loop body makes of one servo, as a function of the speed in force, the goal and
  the current position; \<open>maxspeed_of\<close> is the speed in force for index \<open>i\<close>.
\<close>

definition maxspeed_of :: "sequence_t \<Rightarrow> seq_state \<Rightarrow> nat \<Rightarrow> int16" where
  "maxspeed_of array s i =
     (if pgm_read_word array (sequence_step s) SPEED_PARAM \<noteq> - 1
      then pgm_read_word array (sequence_step s) SPEED_PARAM else servo_speed s ! i)"

definition next_position :: "int16 \<Rightarrow> int16 \<Rightarrow> int16 \<Rightarrow> int16" where
  "next_position maxspeed goal current =
     (let delta = goal - current
      in if delta = 0 then current
         else if maxspeed = 0 \<or> current = SERVO_NO_PULSE then goal
         else if 0 <s delta
              then (if maxspeed <s delta then current + maxspeed else goal)
              else (if delta <s maxspeed then current - maxspeed else goal))"

text \<open>
  The second part of \<open>seq_dosequence\<close>, reached when \<open>seq_timeout\<close> is zero. The test
  \<open>sequence_step<sequence_length-1\<close> is evaluated on \<open>int\<close>.
\<close>

definition dosequence_advance :: "sequence_t \<Rightarrow> seq_state \<Rightarrow> seq_state" where
  "dosequence_advance array s =
     (if int (sequence_step s) < int (sequence_length s) - 1
      then
        (let s1 = seq_setservopos array (sequence_step s) s;
             s2 = s1\<lparr>seq_timeout := pgm_read_word array (sequence_step s1) 0\<rparr>
         in s2\<lparr>sequence_step := sequence_step s2 + 1\<rparr>)
      else if pgm_read_word array (sequence_length s - 1) 0 = 0
      then
        (let s1 = seq_setservopos array (sequence_length s - 1) s
         in call_completion_callback (s1\<lparr>sequence_started := 0, sequence_step := 0\<rparr>))
      else
        (let s1 = seq_setservopos array (sequence_length s - 1) s;
             s2 = s1\<lparr>seq_timeout := pgm_read_word array (sequence_length s1 - 1) 0\<rparr>
         in s2\<lparr>sequence_step := 0\<rparr>))"

definition seq_dosequence :: "seq_state \<Rightarrow> seq_state" where
  "seq_dosequence s =
     (if sequence_started s = 0 then s
      else case sequence_array s of
        None \<Rightarrow> s
      | Some array \<Rightarrow>
          (let s1 = dosequence_move array s
           in if seq_timeout s1 \<noteq> 0 then s1 else dosequence_advance array s1))"

text \<open>
  One tick of the Tick Service as the sequencer sees it after \<open>seq_init\<close>, which registers
  \<open>seq_timeout\<close> as a timer and \<open>seq_dosequence\<close> as a function: the handler of the 16 MHz
  build first decrements the timer if it is not zero, then calls the function.
\<close>

definition seq_tick :: "seq_state \<Rightarrow> seq_state" where
  "seq_tick s =
     seq_dosequence (if seq_timeout s \<noteq> 0 then s\<lparr>seq_timeout := seq_timeout s - 1\<rparr> else s)"

section \<open>Example tables and states\<close>

text \<open>
  Concrete inputs for the closed theorems below. In \<open>ex_state\<close> every servo is commanded
  to 1500 us (3000 ticks) and the callback 42 is registered. The tables have the layout of
  \<open>panel_sequences.h\<close>: duration, eleven targets, speed override (\<open>_NP\<close>, that is -1: use
  the speed array), first and last servo.
\<close>

definition ex_state :: seq_state where
  "ex_state =
     \<lparr>seq_current = replicate 11 1500, seq_goal = replicate 11 1500, seq_timeout = 0,
      seq_completion_callback = 42, servo_speed = replicate 11 0, sequence_step = 0,
      sequence_started = 1, sequence_array = None, sequence_length = 0,
      servo_value = replicate 12 3000, callback_log = []\<rparr>"

text \<open>
  A first frame that names servos 3 to 5 as its range and has \<open>_NP\<close> as the target of servo
  7, followed by a halting frame.
\<close>

definition ex_partial_table :: sequence_t where
  "ex_partial_table =
     [[50, 1000, 1000, 1000, 1000, 1000, 1000, - 1, 1000, 1000, 1000, 1000, - 1, 3, 5],
      [0, - 1, - 1, - 1, - 1, - 1, - 1, - 1, - 1, - 1, - 1, - 1, - 1, 1, 11]]"

text \<open>Two frames, the last one with duration 0 (halt) and targets 1000.\<close>

definition ex_halting_table :: sequence_t where
  "ex_halting_table =
     [[1, 2000, 2000, 2000, 2000, 2000, 2000, 2000, 2000, 2000, 2000, 2000, - 1, 1, 11],
      [0, 1000, 1000, 1000, 1000, 1000, 1000, 1000, 1000, 1000, 1000, 1000, - 1, 1, 11]]"

text \<open>Two frames, the last one with duration 7 (loop).\<close>

definition ex_looping_table :: sequence_t where
  "ex_looping_table =
     [[5, 2000, 2000, 2000, 2000, 2000, 2000, 2000, 2000, 2000, 2000, 2000, - 1, 1, 11],
      [7, 1000, 1000, 1000, 1000, 1000, 1000, 1000, 1000, 1000, 1000, 1000, - 1, 1, 11]]"

definition ex_partial_state :: seq_state where
  "ex_partial_state = ex_state\<lparr>sequence_array := Some ex_partial_table, sequence_length := 2\<rparr>"

text \<open>
  Servos at 1010 us on their way down to 1000 us (\<open>_OPN\<close>) at speed 15 (the value of
  \<open>panel_slow_speed\<close>), the frame timer still running.
\<close>

definition ex_downward_state :: seq_state where
  "ex_downward_state =
     ex_state\<lparr>seq_current := replicate 11 1010, seq_goal := replicate 11 1000,
       servo_speed := replicate 11 15, seq_timeout := 5,
       sequence_array := Some ex_looping_table, sequence_length := 2\<rparr>"

text \<open>
  The halting table loaded with the speed limits cleared and the sequence started, from
  \<open>ex_state\<close>.
\<close>

definition ex_halting_run :: seq_state where
  "ex_halting_run =
     seq_startsequence (seq_resetspeed (seq_loadsequence ex_halting_table 2 ex_state))"

text \<open>States that stand on the last frame with the frame timer at zero.\<close>

definition ex_looping_state :: seq_state where
  "ex_looping_state =
     ex_state\<lparr>sequence_step := 1, sequence_array := Some ex_looping_table, sequence_length := 2\<rparr>"

definition ex_last_frame_state :: seq_state where
  "ex_last_frame_state =
     ex_state\<lparr>sequence_step := 1, sequence_array := Some ex_halting_table, sequence_length := 2\<rparr>"


section \<open>Facts about 16-bit words\<close>

lemma uint_of_sint_nonneg:
  fixes t :: "16 word"
  assumes "0 \<le> sint t"
  shows "uint t = sint t"
proof -
  have "sint t < 2 ^ 16" using sint_lt [of t] by simp
  with assms have "take_bit 16 (sint t) = sint t"
    by (simp add: take_bit_int_eq_self)
  then show ?thesis by (simp add: uint_sint)
qed

lemma unat_of_sint_nonneg:
  fixes t :: "16 word"
  assumes "0 \<le> sint t"
  shows "int (unat t) = sint t"
  using uint_of_sint_nonneg [OF assms] by (simp only: uint_nat)

lemma double_not_sentinel:
  fixes t :: "16 word"
  shows "2 * t \<noteq> - 1"
proof
  assume h: "2 * t = - 1"
  have "even (2 * t)" by simp
  with h have "even (- 1 :: 16 word)" by simp
  then show False by simp
qed

lemma double_half:
  fixes t :: "16 word"
  assumes "unat t < 32768"
  shows "(2 * t) div 2 = t"
proof -
  have "unat (2 * t) = 2 * unat t"
    using assms by (simp add: unat_word_ariths)
  then have "unat ((2 * t) div 2) = unat t"
    by (simp add: unat_div)
  then show ?thesis by (simp add: word_unat_eq_iff)
qed

lemma double_half_signed:
  fixes t :: "16 word"
  assumes "0 \<le>s t"
  shows "(2 * t) div 2 = t"
proof -
  from assms have "0 \<le> sint t" by (simp add: word_sle_eq)
  then have "int (unat t) = sint t" by (rule unat_of_sint_nonneg)
  moreover have "sint t < 32768" using sint_lt [of t] by simp
  ultimately have "unat t < 32768" by linarith
  then show ?thesis by (rule double_half)
qed

section \<open>servo.c: setting and reading a pulse value\<close>

lemma clip_range: "SERVO_PULSE_MIN \<le>s clip time \<and> clip time \<le>s SERVO_PULSE_MAX"
  by (auto simp: clip_def Let_def SERVO_PULSE_MIN_def SERVO_PULSE_MAX_def word_sle_eq word_sless_alt)

lemma clip_double_half: "(2 * clip w) div 2 = clip w"
proof -
  have "0 \<le>s clip w"
    using clip_range [of w] by (simp add: SERVO_PULSE_MIN_def word_sle_eq)
  then show ?thesis by (rule double_half_signed)
qed

lemma servo_set_unfold:
  "servo_set c w sv =
     (if c = 0 \<or> c > SERVO_NUM then sv
      else sv[c - 1 := (if w \<le>s SERVO_NO_PULSE then SERVO_NO_PULSE else 2 * clip w)])"
  by (simp add: servo_set_def clip_def Let_def)

lemma servo_set_length [simp]: "length (servo_set c w sv) = length sv"
  by (simp add: servo_set_unfold)

lemma servo_set_read:
  assumes "1 \<le> c" "c \<le> SERVO_NUM" "length sv = 12"
  shows "servo_read c (servo_set c w sv) =
           (if w \<le>s SERVO_NO_PULSE then SERVO_NO_PULSE else clip w)"
  using assms
  by (simp add: servo_set_unfold servo_read_def SERVO_NUM_def clip_double_half
      double_not_sentinel SERVO_NO_PULSE_def)

lemma servo_entry_ok_stored:
  "servo_entry_ok (if w \<le>s SERVO_NO_PULSE then SERVO_NO_PULSE else 2 * clip w)"
  using clip_range [of w] by (simp add: servo_entry_ok_def clip_double_half)

lemma servo_set_entries:
  assumes "list_all servo_entry_ok sv"
  shows "list_all servo_entry_ok (servo_set c w sv)"
proof -
  have "set (sv[c - 1 := x]) \<subseteq> insert x (set sv)" for x :: uint16
    by (rule set_update_subset_insert)
  with assms servo_entry_ok_stored [of w] show ?thesis
    unfolding servo_set_unfold list_all_iff by (auto split: if_splits)
qed

lemma servo_set_calls_inv:
  assumes "list_all servo_entry_ok sv"
  shows "list_all servo_entry_ok (servo_set_calls calls sv)
         \<and> length (servo_set_calls calls sv) = length sv"
  using assms
proof (induction calls arbitrary: sv)
  case Nil
  then show ?case by (simp add: servo_set_calls_def)
next
  case (Cons a calls)
  obtain c w where a: "a = (c, w)" by (cases a)
  have "list_all servo_entry_ok (servo_set c w sv)"
    using Cons.prems by (rule servo_set_entries)
  from Cons.IH [OF this] show ?case
    by (simp add: servo_set_calls_def a)
qed

lemma servo_init_inv: "list_all servo_entry_ok servo_init \<and> length servo_init = 12"
  by (simp add: servo_init_def servo_entry_ok_def list_all_iff)

lemma servo_read_cases:
  assumes "list_all servo_entry_ok sv" "length sv = 12"
  shows "(servo_read c sv = 0 \<longleftrightarrow> (c = 0 \<or> c > SERVO_NUM))
       \<and> (servo_read c sv = 0 \<or> servo_read c sv = SERVO_NO_PULSE
          \<or> (SERVO_PULSE_MIN \<le>s servo_read c sv \<and> servo_read c sv \<le>s SERVO_PULSE_MAX))"
proof (cases "c = 0 \<or> c > SERVO_NUM")
  case True
  then show ?thesis by (simp add: servo_read_def)
next
  case False
  then have "c - 1 < length sv" using assms(2) unfolding SERVO_NUM_def by linarith
  then have ok: "servo_entry_ok (sv ! (c - 1))"
    using assms(1) by (simp add: list_all_length)
  show ?thesis
  proof (cases "sv ! (c - 1) = SERVO_NO_PULSE")
    case True
    with False show ?thesis by (simp add: servo_read_def SERVO_NO_PULSE_def)
  next
    case nosent: False
    with ok have r: "SERVO_PULSE_MIN \<le>s sv ! (c - 1) div 2" "sv ! (c - 1) div 2 \<le>s SERVO_PULSE_MAX"
      by (simp_all add: servo_entry_ok_def)
    from r(1) have "sv ! (c - 1) div 2 \<noteq> 0"
      by (auto simp: SERVO_PULSE_MIN_def word_sle_eq)
    with False nosent r show ?thesis by (simp add: servo_read_def)
  qed
qed

text \<open>
  Claim C10. After \<open>servo_init\<close> and any sequence of \<open>servo_set\<close> calls, \<open>servo_read(c)\<close>
  returns 0 exactly when the channel number is out of range (0 or above \<open>SERVO_NUM\<close>), and
  otherwise the \<open>SERVO_NO_PULSE\<close> sentinel or a width between 500 and 2500; so neither 0 nor
  the sentinel can be taken for a legal width.
\<close>

theorem servo_read_after_init:
  "(servo_read c (servo_set_calls calls servo_init) = 0 \<longleftrightarrow> (c = 0 \<or> c > SERVO_NUM))
   \<and> (servo_read c (servo_set_calls calls servo_init) = 0
      \<or> servo_read c (servo_set_calls calls servo_init) = SERVO_NO_PULSE
      \<or> (SERVO_PULSE_MIN \<le>s servo_read c (servo_set_calls calls servo_init)
         \<and> servo_read c (servo_set_calls calls servo_init) \<le>s SERVO_PULSE_MAX))"
proof -
  have "list_all servo_entry_ok (servo_set_calls calls servo_init)"
    and "length (servo_set_calls calls servo_init) = 12"
    using servo_set_calls_inv [of servo_init calls] servo_init_inv by simp_all
  then show ?thesis by (rule servo_read_cases)
qed

theorem servo_read_after_init_witness:
  "servo_read 12 (servo_set_calls [(2, 3000), (12, 700), (3, - 5)] servo_init) = 0
   \<and> servo_read 2 (servo_set_calls [(2, 3000), (12, 700), (3, - 5)] servo_init) = 2500
   \<and> servo_read 3 (servo_set_calls [(2, 3000), (12, 700), (3, - 5)] servo_init) = SERVO_NO_PULSE"
  using servo_read_after_init [of 12 "[(2, 3000), (12, 700), (3, - 5)]"]
  by (simp add: servo_set_calls_def servo_set_def servo_read_def servo_init_def SERVO_NUM_def
      SERVO_PULSE_MIN_def SERVO_PULSE_MAX_def SERVO_NO_PULSE_def word_sle_eq word_sless_alt)

text \<open>
  Claim C3, as the code has it. For a channel \<open>c\<close> in 1..SERVO_NUM, \<open>servo_set(c, w)\<close>
  followed by \<open>servo_read(c)\<close> returns \<open>w\<close> when \<open>w\<close> is in [500, 2500], 2500 when \<open>w\<close> is
  above 2500, 500 when \<open>w\<close> is in [0, 500), and the \<open>SERVO_NO_PULSE\<close> sentinel for every
  negative \<open>w\<close> (the source switches the pulse off for any time at or below the sentinel).
\<close>

theorem servo_set_then_read:
  assumes "1 \<le> c" "c \<le> SERVO_NUM" "length sv = 12"
  shows "(SERVO_PULSE_MIN \<le>s w \<and> w \<le>s SERVO_PULSE_MAX \<longrightarrow> servo_read c (servo_set c w sv) = w)
       \<and> (SERVO_PULSE_MAX <s w \<longrightarrow> servo_read c (servo_set c w sv) = SERVO_PULSE_MAX)
       \<and> (0 \<le>s w \<and> w <s SERVO_PULSE_MIN \<longrightarrow> servo_read c (servo_set c w sv) = SERVO_PULSE_MIN)
       \<and> (w <s 0 \<longrightarrow> servo_read c (servo_set c w sv) = SERVO_NO_PULSE)"
  unfolding servo_set_read [OF assms]
  by (auto simp: clip_def Let_def SERVO_PULSE_MIN_def SERVO_PULSE_MAX_def SERVO_NO_PULSE_def
      word_sle_eq word_sless_alt)

theorem servo_set_then_read_witness:
  "servo_read 3 (servo_set 3 1500 servo_init) = 1500
   \<and> servo_read 3 (servo_set 3 3000 servo_init) = 2500
   \<and> servo_read 3 (servo_set 3 20 servo_init) = 500
   \<and> servo_read 3 (servo_set 3 (- 7) servo_init) = - 1"
  using servo_set_then_read [of 3 servo_init 1500] servo_set_then_read [of 3 servo_init 3000]
    servo_set_then_read [of 3 servo_init 20] servo_set_then_read [of 3 servo_init "- 7"]
  by (simp add: SERVO_NUM_def servo_init_def SERVO_PULSE_MIN_def SERVO_PULSE_MAX_def
      SERVO_NO_PULSE_def word_sle_eq word_sless_alt)

text \<open>
  Claim C3 as stated fails for a negative width other than the sentinel: \<open>- 2\<close> is below 500
  and is not \<open>SERVO_NO_PULSE\<close>, yet reading back gives the sentinel, not 500.
\<close>

theorem servo_set_negative_counterexample:
  "(- 2 :: int16) <s SERVO_PULSE_MIN \<and> (- 2 :: int16) \<noteq> SERVO_NO_PULSE
   \<and> servo_read 1 (servo_set 1 (- 2) servo_init) \<noteq> SERVO_PULSE_MIN
   \<and> servo_read 1 (servo_set 1 (- 2) servo_init) = SERVO_NO_PULSE"
  by (simp add: servo_set_def servo_read_def servo_init_def SERVO_NUM_def SERVO_PULSE_MIN_def
      SERVO_PULSE_MAX_def SERVO_NO_PULSE_def word_sle_eq word_sless_alt)


section \<open>realtime.c: registering past capacity\<close>

declare rt_add_loop.simps [simp del]
declare rt_remove_loop.simps [simp del]

lemma rt_add_loop_full:
  "(\<forall>j. i \<le> j \<and> j < cap \<longrightarrow> arr ! j \<noteq> 0) \<Longrightarrow> rt_add_loop cap i p arr = (False, arr)"
proof (induction cap i p arr rule: rt_add_loop.induct)
  case (1 cap i p arr)
  show ?case
  proof (cases "i < cap")
    case True
    with "1.prems" have nz: "arr ! i \<noteq> 0" by simp
    have "rt_add_loop cap (i + 1) p arr = (False, arr)"
      using True nz "1.prems" by (intro "1.IH") auto
    with True nz show ?thesis by (subst rt_add_loop.simps) simp
  next
    case False
    then show ?thesis by (subst rt_add_loop.simps) simp
  qed
qed

lemma rt_add_loop_fails:
  "\<not> fst (rt_add_loop cap i p arr) \<Longrightarrow> i \<le> j \<Longrightarrow> j < cap \<Longrightarrow> arr ! j \<noteq> 0"
proof (induction cap i p arr rule: rt_add_loop.induct)
  case (1 cap i p arr)
  from "1.prems" have lt: "i < cap" by simp
  have nz: "arr ! i \<noteq> 0"
  proof
    assume "arr ! i = 0"
    with lt have "fst (rt_add_loop cap i p arr)" by (subst rt_add_loop.simps) simp
    with "1.prems"(1) show False by simp
  qed
  show ?case
  proof (cases "j = i")
    case True
    with nz show ?thesis by simp
  next
    case False
    have "\<not> fst (rt_add_loop cap (i + 1) p arr)"
      using "1.prems"(1) lt nz by (subst (asm) rt_add_loop.simps) simp
    then show ?thesis
      using lt nz False "1.prems"(2,3) by (intro "1.IH") auto
  qed
qed

lemma rt_full_nth: "rt_full cap arr \<Longrightarrow> j < cap \<Longrightarrow> arr ! j \<noteq> 0"
  by (simp add: rt_full_def list_all_length)

lemma rt_full_I: "length arr = cap \<Longrightarrow> (\<And>j. j < cap \<Longrightarrow> arr ! j \<noteq> 0) \<Longrightarrow> rt_full cap arr"
  by (simp add: rt_full_def list_all_length)

text \<open>
  Claim C9. With the timer registry full (all 10 entries in use) or the function registry
  full (all 3 in use), \<open>rt_add_timer\<close> / \<open>rt_add_function\<close> returns FALSE and leaves the
  array as it was; and a FALSE result only ever comes from a full registry.
\<close>

theorem rt_add_when_full:
  "(rt_full RT_MAX_TIMERS tarr \<longrightarrow> rt_add_timer t tarr = (False, tarr))
   \<and> (rt_full RT_MAX_FUNCTIONS farr \<longrightarrow> rt_add_function f farr = (False, farr))
   \<and> (length tarr = RT_MAX_TIMERS \<and> \<not> fst (rt_add_timer t tarr) \<longrightarrow> rt_full RT_MAX_TIMERS tarr)
   \<and> (length farr = RT_MAX_FUNCTIONS \<and> \<not> fst (rt_add_function f farr)
        \<longrightarrow> rt_full RT_MAX_FUNCTIONS farr)"
proof (intro conjI impI)
  assume "rt_full RT_MAX_TIMERS tarr"
  then show "rt_add_timer t tarr = (False, tarr)"
    unfolding rt_add_timer_def by (intro rt_add_loop_full) (simp add: rt_full_nth)
next
  assume "rt_full RT_MAX_FUNCTIONS farr"
  then show "rt_add_function f farr = (False, farr)"
    unfolding rt_add_function_def by (intro rt_add_loop_full) (simp add: rt_full_nth)
next
  assume h: "length tarr = RT_MAX_TIMERS \<and> \<not> fst (rt_add_timer t tarr)"
  then have "\<not> fst (rt_add_loop RT_MAX_TIMERS 0 t tarr)" by (simp add: rt_add_timer_def)
  then have "\<And>j. j < RT_MAX_TIMERS \<Longrightarrow> tarr ! j \<noteq> 0"
    by (rule rt_add_loop_fails) simp_all
  with h show "rt_full RT_MAX_TIMERS tarr" by (intro rt_full_I) simp_all
next
  assume h: "length farr = RT_MAX_FUNCTIONS \<and> \<not> fst (rt_add_function f farr)"
  then have "\<not> fst (rt_add_loop RT_MAX_FUNCTIONS 0 f farr)" by (simp add: rt_add_function_def)
  then have "\<And>j. j < RT_MAX_FUNCTIONS \<Longrightarrow> farr ! j \<noteq> 0"
    by (rule rt_add_loop_fails) simp_all
  with h show "rt_full RT_MAX_FUNCTIONS farr" by (intro rt_full_I) simp_all
qed

theorem rt_add_when_full_witness:
  "rt_full RT_MAX_TIMERS [1, 2, 3, 4, 5, 6, 7, 8, 9, 10]
   \<and> rt_add_timer 11 [1, 2, 3, 4, 5, 6, 7, 8, 9, 10] = (False, [1, 2, 3, 4, 5, 6, 7, 8, 9, 10])
   \<and> rt_full RT_MAX_FUNCTIONS [21, 22, 23]
   \<and> rt_add_function 24 [21, 22, 23] = (False, [21, 22, 23])"
  using rt_add_when_full [of "[1, 2, 3, 4, 5, 6, 7, 8, 9, 10]" 11 "[21, 22, 23]" 24]
  by (simp add: rt_full_def RT_MAX_TIMERS_def RT_MAX_FUNCTIONS_def)

lemma rt_add_timer_free_example:
  "rt_add_timer 11 [1, 2, 0, 4, 5, 6, 7, 8, 9, 10] = (True, [1, 2, 11, 4, 5, 6, 7, 8, 9, 10])"
  by (simp add: rt_add_timer_def rt_add_loop.simps RT_MAX_TIMERS_def)


declare rt_timers_COMP.simps [simp del]

section \<open>realtime.c: the timers at a tick\<close>




lemma increment_time_timer_mem [simp]: "timer_mem (increment_time s) = timer_mem s"
  by (simp add: increment_time_def Let_def)





text \<open>
  The alternative handler \<open>ISR(TIMER0_COMP_vect)\<close> is compiled only with \<open>_USE_32KHZ_\<close>
  defined, which \<open>realtime.h\<close> leaves commented out. Its test reads
  \<open>if (!*timerpointer)\<close>: on the same registry the timer at zero wraps to 65535 and the
  timer at 5 is not decremented.
\<close>

lemma TIMER0_COMP_vect_inverted_test:
  "timer_mem (fst (TIMER0_COMP_vect
      \<lparr>rt_timer_array = [7, 9, 0, 0, 0, 0, 0, 0, 0, 0], rt_function_array = [0, 0, 0],
       timer_mem = (\<lambda>a. 0)(9 := 5), rt_count1 = 0, rt_count2 = 0, rt_seconds = 0,
       hundreds = 0, seconds = 0, minutes = 0, hours = 0, countseconds = 0,
       counter_phase = 0\<rparr>)) 7 = 65535
   \<and> timer_mem (fst (TIMER0_COMP_vect
      \<lparr>rt_timer_array = [7, 9, 0, 0, 0, 0, 0, 0, 0, 0], rt_function_array = [0, 0, 0],
       timer_mem = (\<lambda>a. 0)(9 := 5), rt_count1 = 0, rt_count2 = 0, rt_seconds = 0,
       hundreds = 0, seconds = 0, minutes = 0, hours = 0, countseconds = 0,
       counter_phase = 0\<rparr>)) 9 = 5"
  by (simp add: TIMER0_COMP_vect_def Let_def rt_timers_COMP.simps RT_MAX_TIMERS_def)

section \<open>servo.c: what the RC read returns\<close>

lemma rc_gap_missed_timeout:
  "servo_rctimeout (rc_gap_missed s) =
     (if servo_rctimeout s \<le> SERVO_RC_TIMEOUT_MAX then servo_rctimeout s + 1 else servo_rctimeout s)"
  by (simp add: rc_gap_missed_def servo_doRCread_end_def servo_doRCread_start_def)

lemma rc_gap_missed_pow:
  "min (servo_rctimeout s + n) SERVO_RC_TIMEOUT_MAX \<le> servo_rctimeout ((rc_gap_missed ^^ n) s)"
proof (induction n)
  case 0
  then show ?case by simp
next
  case (Suc n)
  have "servo_rctimeout ((rc_gap_missed ^^ Suc n) s) =
          (if servo_rctimeout ((rc_gap_missed ^^ n) s) \<le> SERVO_RC_TIMEOUT_MAX
           then servo_rctimeout ((rc_gap_missed ^^ n) s) + 1
           else servo_rctimeout ((rc_gap_missed ^^ n) s))"
    by (simp add: rc_gap_missed_timeout)
  with Suc show ?case by (simp split: if_splits)
qed

lemma rc_gap_captured_state:
  "rc_gap_captured rise fall s =
     s\<lparr>ices1 := False, servo_gotpulse := 1, servo_rcbegin := rise, servo_rcend := fall,
       servo_rctimeout := 0, servo_rctemp := fall - rise, servo_rcvalid := 1\<rparr>"
  by (simp add: rc_gap_captured_def servo_doRCread_end_def servo_doRCread_start_def
      TIMER1_CAPT_vect_def)

text \<open>
  Claim C6. \<open>servo_RCread\<close> returns a fresh capture (half the captured tick count) once and
  clears the validity flag, so that the next call takes the "last known" path; while the
  miss counter is positive and below \<open>SERVO_RC_TIMEOUT_MAX\<close> it returns the last known
  reading and changes nothing; from \<open>SERVO_RC_TIMEOUT_MAX\<close> misses on it returns
  \<open>SERVO_NO_PULSE\<close>, which is the case after that many idle gaps without a pulse; and a gap
  with a captured pulse resets the miss counter, after which the new reading is returned
  by the fresh path once and by the "last known" path afterwards.
\<close>

theorem servo_RCread_cases:
  "(servo_rctimeout s = 0 \<and> servo_rcvalid s \<noteq> 0 \<longrightarrow>
      fst (servo_RCread s) = half_int16 (servo_rctemp s)
      \<and> servo_rcvalid (snd (servo_RCread s)) = 0
      \<and> servo_rcpulse (snd (servo_RCread s)) = half_int16 (servo_rctemp s)
      \<and> servo_RCread (snd (servo_RCread s))
          = (servo_rcpulse (snd (servo_RCread s)), snd (servo_RCread s)))
   \<and> (0 < servo_rctimeout s \<and> servo_rctimeout s < SERVO_RC_TIMEOUT_MAX \<longrightarrow>
      servo_RCread s = (servo_rcpulse s, s))
   \<and> (SERVO_RC_TIMEOUT_MAX \<le> servo_rctimeout s \<longrightarrow> fst (servo_RCread s) = SERVO_NO_PULSE)
   \<and> fst (servo_RCread ((rc_gap_missed ^^ SERVO_RC_TIMEOUT_MAX) s)) = SERVO_NO_PULSE
   \<and> servo_rctimeout (rc_gap_captured rise fall s) = 0
   \<and> fst (servo_RCread (rc_gap_captured rise fall s)) = half_int16 (fall - rise)
   \<and> servo_rcvalid (snd (servo_RCread (rc_gap_captured rise fall s))) = 0
   \<and> servo_RCread (snd (servo_RCread (rc_gap_captured rise fall s)))
        = (half_int16 (fall - rise), snd (servo_RCread (rc_gap_captured rise fall s)))"
proof (intro conjI impI)
  have "SERVO_RC_TIMEOUT_MAX \<le> servo_rctimeout ((rc_gap_missed ^^ SERVO_RC_TIMEOUT_MAX) s)"
    using rc_gap_missed_pow [of s SERVO_RC_TIMEOUT_MAX] by simp
  then show "fst (servo_RCread ((rc_gap_missed ^^ SERVO_RC_TIMEOUT_MAX) s)) = SERVO_NO_PULSE"
    by (simp add: servo_RCread_def)
qed (simp_all add: servo_RCread_def rc_gap_captured_state SERVO_RC_TIMEOUT_MAX_def)


lemma half_int16_examples: "half_int16 3000 = 1500 \<and> half_int16 (- 7) = - 3"
  by (simp add: half_int16_def signed_divide_int_def)

theorem servo_RCread_cases_witness:
  "fst (servo_RCread \<lparr>servo_rcbegin = 0, servo_rcend = 0, servo_gotpulse = 0,
        servo_rctimeout = 0, servo_rcvalid = 1, servo_rctemp = 3000, servo_rcpulse = 1200,
        ices1 = False\<rparr>) = 1500
   \<and> fst (servo_RCread \<lparr>servo_rcbegin = 0, servo_rcend = 0, servo_gotpulse = 0,
        servo_rctimeout = 3, servo_rcvalid = 1, servo_rctemp = 3000, servo_rcpulse = 1200,
        ices1 = False\<rparr>) = 1200
   \<and> fst (servo_RCread \<lparr>servo_rcbegin = 0, servo_rcend = 0, servo_gotpulse = 0,
        servo_rctimeout = 10, servo_rcvalid = 1, servo_rctemp = 3000, servo_rcpulse = 1200,
        ices1 = False\<rparr>) = - 1"
  using
    servo_RCread_cases [of "\<lparr>servo_rcbegin = 0, servo_rcend = 0, servo_gotpulse = 0,
        servo_rctimeout = 0, servo_rcvalid = 1, servo_rctemp = 3000, servo_rcpulse = 1200,
        ices1 = False\<rparr>"]
    servo_RCread_cases [of "\<lparr>servo_rcbegin = 0, servo_rcend = 0, servo_gotpulse = 0,
        servo_rctimeout = 3, servo_rcvalid = 1, servo_rctemp = 3000, servo_rcpulse = 1200,
        ices1 = False\<rparr>"]
    servo_RCread_cases [of "\<lparr>servo_rcbegin = 0, servo_rcend = 0, servo_gotpulse = 0,
        servo_rctimeout = 10, servo_rcvalid = 1, servo_rctemp = 3000, servo_rcpulse = 1200,
        ices1 = False\<rparr>"]
  by (simp add: half_int16_def signed_divide_int_def SERVO_RC_TIMEOUT_MAX_def SERVO_NO_PULSE_def)


section \<open>sequencer.c: what the loops change\<close>

lemma setservopos_body_shape:
  "\<exists>G V. setservopos_body array step i s = s\<lparr>seq_goal := G, servo_value := V\<rparr>"
proof -
  have "setservopos_body array step i s =
          s\<lparr>seq_goal := seq_goal (setservopos_body array step i s),
            servo_value := servo_value (setservopos_body array step i s)\<rparr>"
    by (simp add: setservopos_body_def Let_def)
  then show ?thesis by blast
qed

lemma setservopos_fold_shape:
  "\<exists>G V. fold (setservopos_body array step) js s = s\<lparr>seq_goal := G, servo_value := V\<rparr>"
proof (induction js arbitrary: s)
  case Nil
  have "s = s\<lparr>seq_goal := seq_goal s, servo_value := servo_value s\<rparr>" by simp
  then show ?case by (simp only: fold.simps id_apply) blast
next
  case (Cons j js)
  obtain G1 V1 where b: "setservopos_body array step j s = s\<lparr>seq_goal := G1, servo_value := V1\<rparr>"
    using setservopos_body_shape by blast
  obtain G V where f: "fold (setservopos_body array step) js (s\<lparr>seq_goal := G1, servo_value := V1\<rparr>)
      = (s\<lparr>seq_goal := G1, servo_value := V1\<rparr>)\<lparr>seq_goal := G, servo_value := V\<rparr>"
    using Cons.IH by blast
  have "fold (setservopos_body array step) (j # js) s = s\<lparr>seq_goal := G, servo_value := V\<rparr>"
    by (simp add: b f)
  then show ?case by blast
qed

lemma seq_setservopos_shape:
  "\<exists>G V. seq_setservopos array step s = s\<lparr>seq_goal := G, servo_value := V\<rparr>"
  unfolding seq_setservopos_def by (rule setservopos_fold_shape)

lemma setservopos_fold_goal:
  assumes "k < length (seq_goal s)" "distinct js" "\<forall>j\<in>set js. 1 \<le> j"
  shows "length (seq_goal (fold (setservopos_body array step) js s)) = length (seq_goal s)
       \<and> seq_goal (fold (setservopos_body array step) js s) ! k =
           (if k + 1 \<in> set js \<and> \<not> skip_servo array step (k + 1)
            then pgm_read_word array step (k + 1) else seq_goal s ! k)"
  using assms
proof (induction js arbitrary: s)
  case Nil
  then show ?case by simp
next
  case (Cons j js)
  let ?s1 = "setservopos_body array step j s"
  have len1: "length (seq_goal ?s1) = length (seq_goal s)"
    by (simp add: setservopos_body_def Let_def)
  have j1: "1 \<le> j" using Cons.prems(3) by simp
  have nth1: "seq_goal ?s1 ! k =
      (if k + 1 = j \<and> \<not> skip_servo array step j then pgm_read_word array step j else seq_goal s ! k)"
    using Cons.prems(1) j1 by (auto simp: setservopos_body_def Let_def nth_list_update)
  have "length (seq_goal (fold (setservopos_body array step) js ?s1)) = length (seq_goal ?s1)
       \<and> seq_goal (fold (setservopos_body array step) js ?s1) ! k =
           (if k + 1 \<in> set js \<and> \<not> skip_servo array step (k + 1)
            then pgm_read_word array step (k + 1) else seq_goal ?s1 ! k)"
    using Cons.prems len1 by (intro Cons.IH) simp_all
  with len1 nth1 Cons.prems(2) show ?case by auto
qed

lemma seq_setservopos_goal:
  assumes "k < SERVO_NUM" "length (seq_goal s) = SERVO_NUM"
  shows "seq_goal (seq_setservopos array step s) ! k =
           (if skip_servo array step (k + 1) then seq_goal s ! k
            else pgm_read_word array step (k + 1))"
proof -
  have "k + 1 \<in> set [1..<SERVO_NUM + 1]" using assms(1) by auto
  moreover have "seq_goal (fold (setservopos_body array step) [1..<SERVO_NUM + 1] s) ! k =
           (if k + 1 \<in> set [1..<SERVO_NUM + 1] \<and> \<not> skip_servo array step (k + 1)
            then pgm_read_word array step (k + 1) else seq_goal s ! k)"
    using assms by (intro setservopos_fold_goal [THEN conjunct2]) simp_all
  ultimately show ?thesis unfolding seq_setservopos_def by simp
qed

lemma dosequence_body_shape:
  "\<exists>C V. dosequence_body array i s = s\<lparr>seq_current := C, servo_value := V\<rparr>"
proof -
  have "dosequence_body array i s =
          s\<lparr>seq_current := seq_current (dosequence_body array i s),
            servo_value := servo_value (dosequence_body array i s)\<rparr>"
    by (simp add: dosequence_body_def Let_def)
  then show ?thesis by blast
qed

lemma dosequence_fold_shape:
  "\<exists>C V. fold (dosequence_body array) js s = s\<lparr>seq_current := C, servo_value := V\<rparr>"
proof (induction js arbitrary: s)
  case Nil
  have "s = s\<lparr>seq_current := seq_current s, servo_value := servo_value s\<rparr>" by simp
  then show ?case by (simp only: fold.simps id_apply) blast
next
  case (Cons j js)
  obtain C1 V1 where b: "dosequence_body array j s = s\<lparr>seq_current := C1, servo_value := V1\<rparr>"
    using dosequence_body_shape by blast
  obtain C V where f: "fold (dosequence_body array) js (s\<lparr>seq_current := C1, servo_value := V1\<rparr>)
      = (s\<lparr>seq_current := C1, servo_value := V1\<rparr>)\<lparr>seq_current := C, servo_value := V\<rparr>"
    using Cons.IH by blast
  have "fold (dosequence_body array) (j # js) s = s\<lparr>seq_current := C, servo_value := V\<rparr>"
    by (simp add: b f)
  then show ?case by blast
qed

lemma dosequence_move_shape:
  "\<exists>C V. dosequence_move array s = s\<lparr>seq_current := C, servo_value := V\<rparr>"
  unfolding dosequence_move_def by (rule dosequence_fold_shape)


lemma seq_setservopos_fields:
  "seq_current (seq_setservopos array step s) = seq_current s
   \<and> seq_timeout (seq_setservopos array step s) = seq_timeout s
   \<and> seq_completion_callback (seq_setservopos array step s) = seq_completion_callback s
   \<and> servo_speed (seq_setservopos array step s) = servo_speed s
   \<and> sequence_step (seq_setservopos array step s) = sequence_step s
   \<and> sequence_started (seq_setservopos array step s) = sequence_started s
   \<and> sequence_array (seq_setservopos array step s) = sequence_array s
   \<and> sequence_length (seq_setservopos array step s) = sequence_length s
   \<and> callback_log (seq_setservopos array step s) = callback_log s"
proof -
  obtain G V where "seq_setservopos array step s = s\<lparr>seq_goal := G, servo_value := V\<rparr>"
    using seq_setservopos_shape by blast
  then show ?thesis by simp
qed

lemma dosequence_move_fields:
  "seq_goal (dosequence_move array s) = seq_goal s
   \<and> seq_timeout (dosequence_move array s) = seq_timeout s
   \<and> seq_completion_callback (dosequence_move array s) = seq_completion_callback s
   \<and> servo_speed (dosequence_move array s) = servo_speed s
   \<and> sequence_step (dosequence_move array s) = sequence_step s
   \<and> sequence_started (dosequence_move array s) = sequence_started s
   \<and> sequence_array (dosequence_move array s) = sequence_array s
   \<and> sequence_length (dosequence_move array s) = sequence_length s
   \<and> callback_log (dosequence_move array s) = callback_log s"
proof -
  obtain C V where "dosequence_move array s = s\<lparr>seq_current := C, servo_value := V\<rparr>"
    using dosequence_move_shape by blast
  then show ?thesis by simp
qed

section \<open>sequencer.c: the two branches of the last frame\<close>

lemma seq_dosequence_last_loop:
  assumes "sequence_started s \<noteq> 0" "sequence_array s = Some array"
    and "\<not> int (sequence_step s) < int (sequence_length s) - 1"
    and "seq_timeout s = 0"
    and "pgm_read_word array (sequence_length s - 1) 0 \<noteq> 0"
  shows "seq_dosequence s =
           (seq_setservopos array (sequence_length s - 1) (dosequence_move array s))
             \<lparr>seq_timeout := pgm_read_word array (sequence_length s - 1) 0, sequence_step := 0\<rparr>"
  using assms
  by (simp add: seq_dosequence_def dosequence_advance_def Let_def dosequence_move_fields
      seq_setservopos_fields)

lemma seq_dosequence_last_halt:
  assumes "sequence_started s \<noteq> 0" "sequence_array s = Some array"
    and "\<not> int (sequence_step s) < int (sequence_length s) - 1"
    and "seq_timeout s = 0"
    and "pgm_read_word array (sequence_length s - 1) 0 = 0"
  shows "seq_dosequence s =
           call_completion_callback
             ((seq_setservopos array (sequence_length s - 1) (dosequence_move array s))
                \<lparr>sequence_started := 0, sequence_step := 0\<rparr>)"
  using assms
  by (simp add: seq_dosequence_def dosequence_advance_def Let_def dosequence_move_fields
      seq_setservopos_fields)

lemma seq_dosequence_looping:
  assumes "sequence_array s = Some array"
    and "pgm_read_word array (sequence_length s - 1) 0 \<noteq> 0"
  shows "callback_log (seq_dosequence s) = callback_log s
       \<and> sequence_array (seq_dosequence s) = sequence_array s
       \<and> sequence_length (seq_dosequence s) = sequence_length s
       \<and> sequence_started (seq_dosequence s) = sequence_started s"
  using assms
  by (simp add: seq_dosequence_def dosequence_advance_def Let_def dosequence_move_fields
      seq_setservopos_fields)

lemma seq_tick_looping:
  assumes "sequence_array s = Some array"
    and "pgm_read_word array (sequence_length s - 1) 0 \<noteq> 0"
  shows "callback_log (seq_tick s) = callback_log s
       \<and> sequence_array (seq_tick s) = sequence_array s
       \<and> sequence_length (seq_tick s) = sequence_length s
       \<and> sequence_started (seq_tick s) = sequence_started s"
proof -
  let ?s = "if seq_timeout s \<noteq> 0 then s\<lparr>seq_timeout := seq_timeout s - 1\<rparr> else s"
  have "sequence_array ?s = Some array" "pgm_read_word array (sequence_length ?s - 1) 0 \<noteq> 0"
    using assms by simp_all
  from seq_dosequence_looping [OF this] show ?thesis
    unfolding seq_tick_def by simp
qed

lemma seq_ticks_looping:
  assumes "sequence_array s = Some array"
    and "pgm_read_word array (sequence_length s - 1) 0 \<noteq> 0"
  shows "callback_log ((seq_tick ^^ n) s) = callback_log s
       \<and> sequence_array ((seq_tick ^^ n) s) = sequence_array s
       \<and> sequence_length ((seq_tick ^^ n) s) = sequence_length s
       \<and> sequence_started ((seq_tick ^^ n) s) = sequence_started s"
proof (induction n)
  case 0
  show ?case by simp
next
  case (Suc n)
  let ?t = "(seq_tick ^^ n) s"
  have "sequence_array ?t = Some array" "pgm_read_word array (sequence_length ?t - 1) 0 \<noteq> 0"
    using Suc assms by simp_all
  from seq_tick_looping [OF this] Suc show ?case by simp
qed


section \<open>sequencer.c: loading a table\<close>

lemma loadsequence_fold:
  assumes "1 \<le> c" "c - 1 < length (seq_current s)"
    and "length (seq_goal s) = length (seq_current s)"
    and "distinct js" "\<forall>j\<in>set js. 1 \<le> j"
  shows "servo_value (fold loadsequence_body js s) = servo_value s
       \<and> sequence_started (fold loadsequence_body js s) = sequence_started s
       \<and> sequence_step (fold loadsequence_body js s) = sequence_step s
       \<and> sequence_array (fold loadsequence_body js s) = sequence_array s
       \<and> sequence_length (fold loadsequence_body js s) = sequence_length s
       \<and> length (seq_current (fold loadsequence_body js s)) = length (seq_current s)
       \<and> length (seq_goal (fold loadsequence_body js s)) = length (seq_goal s)
       \<and> seq_current (fold loadsequence_body js s) ! (c - 1) =
           (if c \<in> set js then servo_read c (servo_value s) else seq_current s ! (c - 1))
       \<and> seq_goal (fold loadsequence_body js s) ! (c - 1) =
           (if c \<in> set js then servo_read c (servo_value s) else seq_goal s ! (c - 1))"
  using assms
proof (induction js arbitrary: s)
  case Nil
  then show ?case by simp
next
  case (Cons j js)
  let ?s1 = "loadsequence_body j s"
  have j1: "1 \<le> j" using Cons.prems(5) by simp
  have idx: "j - 1 = c - 1 \<longleftrightarrow> j = c" using j1 Cons.prems(1) by auto
  have f1: "servo_value ?s1 = servo_value s" "sequence_started ?s1 = sequence_started s"
    "sequence_step ?s1 = sequence_step s" "sequence_array ?s1 = sequence_array s"
    "sequence_length ?s1 = sequence_length s"
    "length (seq_current ?s1) = length (seq_current s)"
    "length (seq_goal ?s1) = length (seq_goal s)"
    by (simp_all add: loadsequence_body_def Let_def)
  have c1: "seq_current ?s1 ! (c - 1) =
      (if c = j then servo_read j (servo_value s) else seq_current s ! (c - 1))"
    using Cons.prems(2) idx by (auto simp: loadsequence_body_def Let_def nth_list_update)
  have g1: "seq_goal ?s1 ! (c - 1) =
      (if c = j then servo_read j (servo_value s) else seq_goal s ! (c - 1))"
    using Cons.prems(2,3) idx by (auto simp: loadsequence_body_def Let_def nth_list_update)
  have "servo_value (fold loadsequence_body js ?s1) = servo_value ?s1
       \<and> sequence_started (fold loadsequence_body js ?s1) = sequence_started ?s1
       \<and> sequence_step (fold loadsequence_body js ?s1) = sequence_step ?s1
       \<and> sequence_array (fold loadsequence_body js ?s1) = sequence_array ?s1
       \<and> sequence_length (fold loadsequence_body js ?s1) = sequence_length ?s1
       \<and> length (seq_current (fold loadsequence_body js ?s1)) = length (seq_current ?s1)
       \<and> length (seq_goal (fold loadsequence_body js ?s1)) = length (seq_goal ?s1)
       \<and> seq_current (fold loadsequence_body js ?s1) ! (c - 1) =
           (if c \<in> set js then servo_read c (servo_value ?s1) else seq_current ?s1 ! (c - 1))
       \<and> seq_goal (fold loadsequence_body js ?s1) ! (c - 1) =
           (if c \<in> set js then servo_read c (servo_value ?s1) else seq_goal ?s1 ! (c - 1))"
    using Cons.prems f1 by (intro Cons.IH) simp_all
  with f1 c1 g1 Cons.prems(4) show ?case by auto
qed

text \<open>
  Claim C5. If the Pulse Engine's value of channel \<open>c\<close> (what \<open>servo_read\<close> returns) is
  \<open>V\<close>, different from the first frame's target for \<open>c\<close>, then after \<open>seq_loadsequence\<close> the
  tracked current position and the goal of \<open>c\<close> are both \<open>V\<close>, not that target; the run flag
  is cleared and the frame index is 0.
\<close>

theorem seq_loadsequence_tracks_servo:
  assumes "1 \<le> c" "c \<le> SERVO_NUM"
    and "length (seq_current s) = SERVO_NUM" "length (seq_goal s) = SERVO_NUM"
    and "servo_read c (servo_value s) = V" "V \<noteq> pgm_read_word array 0 c"
  shows "seq_current (seq_loadsequence array len s) ! (c - 1) = V
       \<and> seq_goal (seq_loadsequence array len s) ! (c - 1) = V
       \<and> seq_current (seq_loadsequence array len s) ! (c - 1) \<noteq> pgm_read_word array 0 c
       \<and> sequence_started (seq_loadsequence array len s) = 0
       \<and> sequence_step (seq_loadsequence array len s) = 0
       \<and> sequence_array (seq_loadsequence array len s) = Some array
       \<and> sequence_length (seq_loadsequence array len s) = len"
proof -
  define js where "js = [1..<SERVO_NUM + 1]"
  define s0 where "s0 = s\<lparr>sequence_started := 0, sequence_step := 0,
               sequence_array := Some array, sequence_length := len\<rparr>"
  have js: "c \<in> set js" "distinct js" "\<forall>j\<in>set js. 1 \<le> j"
    using assms(1,2) by (auto simp: js_def)
  have s0: "c - 1 < length (seq_current s0)" "length (seq_goal s0) = length (seq_current s0)"
    using assms(1-4) by (auto simp: s0_def)
  have ld: "seq_loadsequence array len s = fold loadsequence_body js s0"
    by (simp only: seq_loadsequence_def js_def s0_def)
  have "servo_value (fold loadsequence_body js s0) = servo_value s0
       \<and> sequence_started (fold loadsequence_body js s0) = sequence_started s0
       \<and> sequence_step (fold loadsequence_body js s0) = sequence_step s0
       \<and> sequence_array (fold loadsequence_body js s0) = sequence_array s0
       \<and> sequence_length (fold loadsequence_body js s0) = sequence_length s0
       \<and> length (seq_current (fold loadsequence_body js s0)) = length (seq_current s0)
       \<and> length (seq_goal (fold loadsequence_body js s0)) = length (seq_goal s0)
       \<and> seq_current (fold loadsequence_body js s0) ! (c - 1) =
           (if c \<in> set js then servo_read c (servo_value s0) else seq_current s0 ! (c - 1))
       \<and> seq_goal (fold loadsequence_body js s0) ! (c - 1) =
           (if c \<in> set js then servo_read c (servo_value s0) else seq_goal s0 ! (c - 1))"
    using assms(1) s0 js(2,3) by (rule loadsequence_fold)
  with js(1) assms(5,6) show ?thesis
    unfolding ld by (simp add: s0_def)
qed

theorem seq_loadsequence_tracks_servo_witness:
  "servo_read 3 (servo_value ex_state) = 1500
   \<and> pgm_read_word ex_halting_table 0 3 = 2000
   \<and> seq_current (seq_loadsequence ex_halting_table 2 ex_state) ! 2 = 1500
   \<and> seq_goal (seq_loadsequence ex_halting_table 2 ex_state) ! 2 = 1500
   \<and> sequence_started (seq_loadsequence ex_halting_table 2 ex_state) = 0
   \<and> sequence_step (seq_loadsequence ex_halting_table 2 ex_state) = 0"
  using seq_loadsequence_tracks_servo [of 3 ex_state 1500 ex_halting_table 2]
  by (simp add: ex_state_def ex_halting_table_def pgm_read_word_def servo_read_def
      SERVO_NUM_def SERVO_NO_PULSE_def)


section \<open>sequencer.c: the servo range of a frame\<close>

text \<open>With a first servo that is not above the last servo, no servo is skipped.\<close>

lemma skip_servo_proper_range:
  "pgm_read_word array step START_SERVO_PARAM \<le> pgm_read_word array step END_SERVO_PARAM
     \<Longrightarrow> \<not> skip_servo array step i"
  by (auto simp: skip_servo_def)

text \<open>
  Claim C1 fails on the code: the skip test of \<open>seq_setservopos\<close> joins its two comparisons
  with \<open>&&\<close>, so a first frame whose range is servos 3 to 5 still overwrites the goal of servo 1
  (1500 before, 1000 after) and, the target of servo 7 being \<open>_NP\<close>, also switches off the
  pulse of servo 7, which the Pulse Engine had at 1500.
\<close>

theorem seq_setservopos_outside_range:
  "pgm_read_word ex_partial_table 0 START_SERVO_PARAM = 3
   \<and> pgm_read_word ex_partial_table 0 END_SERVO_PARAM = 5
   \<and> sequence_step ex_partial_state = 0
   \<and> sequence_length ex_partial_state = 2
   \<and> seq_goal ex_partial_state ! 0 = 1500
   \<and> seq_goal (seq_dosequence ex_partial_state) ! 0 = 1000
   \<and> servo_read 7 (servo_value ex_partial_state) = 1500
   \<and> seq_goal (seq_dosequence ex_partial_state) ! 6 = SERVO_NO_PULSE
   \<and> servo_read 7 (servo_value (seq_dosequence ex_partial_state)) = SERVO_NO_PULSE
   \<and> seq_goal (seq_setservopos ex_partial_table 0 ex_partial_state) ! 0 = 1000"
  by code_simp

section \<open>sequencer.c: moving towards the goal\<close>

text \<open>
  Claim C2 fails on the code in the downward direction: the test \<open>delta<maxspeed\<close> holds for
  every negative \<open>delta\<close>, so a servo 10 us above its goal with speed 15 is moved by 15 to
  995, below the goal 1000, and is set back to the goal one tick later.
\<close>

theorem seq_dosequence_overshoots_downward:
  "seq_current ex_downward_state ! 0 = 1010
   \<and> seq_goal ex_downward_state ! 0 = 1000
   \<and> servo_speed ex_downward_state ! 0 = 15
   \<and> seq_current (seq_tick ex_downward_state) ! 0 = 995
   \<and> seq_goal (seq_tick ex_downward_state) ! 0 = 1000
   \<and> seq_current (seq_tick ex_downward_state) ! 0 <s seq_goal (seq_tick ex_downward_state) ! 0
   \<and> servo_read 1 (servo_value (seq_tick ex_downward_state)) = 995
   \<and> seq_current ((seq_tick ^^ 2) ex_downward_state) ! 0 = 1000"
  by code_simp


section \<open>sequencer.c: one servo in the movement loop\<close>

lemma dosequence_body_current:
  assumes "k < length (seq_current s)"
  shows "length (seq_current (dosequence_body array i s)) = length (seq_current s)
       \<and> seq_current (dosequence_body array i s) ! k =
           (if k = i then next_position (maxspeed_of array s i) (seq_goal s ! i) (seq_current s ! i)
            else seq_current s ! k)"
  using assms
  by (auto simp: dosequence_body_def next_position_def maxspeed_of_def Let_def nth_list_update)

lemma dosequence_body_fields:
  "seq_goal (dosequence_body array i s) = seq_goal s
   \<and> servo_speed (dosequence_body array i s) = servo_speed s
   \<and> sequence_step (dosequence_body array i s) = sequence_step s"
proof -
  obtain C V where "dosequence_body array i s = s\<lparr>seq_current := C, servo_value := V\<rparr>"
    using dosequence_body_shape by blast
  then show ?thesis by simp
qed

lemma maxspeed_of_body [simp]:
  "maxspeed_of array (dosequence_body array i s) k = maxspeed_of array s k"
  by (simp add: maxspeed_of_def dosequence_body_fields)

lemma dosequence_fold_current:
  assumes "k < length (seq_current s)" "distinct js"
  shows "length (seq_current (fold (dosequence_body array) js s)) = length (seq_current s)
       \<and> seq_current (fold (dosequence_body array) js s) ! k =
           (if k \<in> set js
            then next_position (maxspeed_of array s k) (seq_goal s ! k) (seq_current s ! k)
            else seq_current s ! k)"
  using assms
proof (induction js arbitrary: s)
  case Nil
  then show ?case by simp
next
  case (Cons j js)
  let ?s1 = "dosequence_body array j s"
  have b: "length (seq_current ?s1) = length (seq_current s)"
    "seq_current ?s1 ! k =
       (if k = j then next_position (maxspeed_of array s j) (seq_goal s ! j) (seq_current s ! j)
        else seq_current s ! k)"
    using dosequence_body_current [OF Cons.prems(1), of array j] by simp_all
  have "length (seq_current (fold (dosequence_body array) js ?s1)) = length (seq_current ?s1)
       \<and> seq_current (fold (dosequence_body array) js ?s1) ! k =
           (if k \<in> set js
            then next_position (maxspeed_of array ?s1 k) (seq_goal ?s1 ! k) (seq_current ?s1 ! k)
            else seq_current ?s1 ! k)"
    using Cons.prems b(1) by (intro Cons.IH) simp_all
  with b Cons.prems(2) show ?case by (auto simp: dosequence_body_fields)
qed

lemma dosequence_move_current:
  assumes "k < SERVO_NUM" "length (seq_current s) = SERVO_NUM"
  shows "seq_current (dosequence_move array s) ! k =
           next_position (maxspeed_of array s k) (seq_goal s ! k) (seq_current s ! k)"
proof -
  define js where "js = [0..<SERVO_NUM]"
  have js: "k \<in> set js" "distinct js" using assms(1) by (auto simp: js_def)
  have "seq_current (fold (dosequence_body array) js s) ! k =
           (if k \<in> set js
            then next_position (maxspeed_of array s k) (seq_goal s ! k) (seq_current s ! k)
            else seq_current s ! k)"
    using assms js(2) by (intro dosequence_fold_current [THEN conjunct2]) simp_all
  with js(1) show ?thesis by (simp add: dosequence_move_def js_def)
qed

lemma dosequence_move_current_length:
  assumes "length (seq_current s) = SERVO_NUM"
  shows "length (seq_current (dosequence_move array s)) = SERVO_NUM"
proof -
  have "0 < length (seq_current s)" using assms by (simp add: SERVO_NUM_def)
  then have "length (seq_current (fold (dosequence_body array) [0..<SERVO_NUM] s))
      = length (seq_current s)"
    using dosequence_fold_current [of 0 s "[0..<SERVO_NUM]" array] by simp
  with assms show ?thesis by (simp add: dosequence_move_def)
qed

lemma maxspeed_of_move [simp]:
  "maxspeed_of array (dosequence_move array s) k = maxspeed_of array s k"
  by (simp add: maxspeed_of_def dosequence_move_fields)


section \<open>sequencer.c: the arithmetic of one step\<close>

lemma sint_sub_in_range:
  fixes a b :: int16
  assumes "- 32768 \<le> sint a - sint b" "sint a - sint b < 32768"
  shows "sint (a - b) = sint a - sint b"
  using assms by (simp add: sint_word_ariths signed_take_bit_int_eq_self)

lemma sint_add_in_range:
  fixes a b :: int16
  assumes "- 32768 \<le> sint a + sint b" "sint a + sint b < 32768"
  shows "sint (a + b) = sint a + sint b"
  using assms by (simp add: sint_word_ariths signed_take_bit_int_eq_self)

lemma sint_bounds16:
  fixes a :: int16
  shows "- 32768 \<le> sint a" "sint a < 32768"
  using sint_ge [of a] sint_lt [of a] by simp_all

lemma next_position_at_goal: "next_position R goal goal = goal"
  by (simp add: next_position_def)

text \<open>
  Upwards, with a positive speed and a valid current position below the goal, one step adds
  the speed or stops at the goal, whichever is less.
\<close>

lemma next_position_up:
  assumes "0 <s R" "0 \<le>s cur" "cur <s goal"
  shows "sint (next_position R goal cur) = min (sint cur + sint R) (sint goal)"
proof -
  from assms have r: "0 < sint R" and c: "0 \<le> sint cur" and g: "sint cur < sint goal"
    by (simp_all add: word_sle_eq word_sless_alt)
  have d: "sint (goal - cur) = sint goal - sint cur"
    using c g sint_bounds16 [of goal] by (intro sint_sub_in_range) linarith+
  have nz: "goal - cur \<noteq> 0" using g by auto
  have r0: "R \<noteq> 0" using r by auto
  have cnp: "cur \<noteq> SERVO_NO_PULSE" using c by (auto simp: SERVO_NO_PULSE_def)
  have pos: "0 <s goal - cur" using d g by (simp add: word_sless_alt)
  show ?thesis
  proof (cases "R <s goal - cur")
    case True
    then have lt: "sint R < sint goal - sint cur" using d by (simp add: word_sless_alt)
    have "sint (cur + R) = sint cur + sint R"
      using lt c r sint_bounds16 [of goal] by (intro sint_add_in_range) linarith+
    with True nz r0 cnp pos lt show ?thesis by (simp add: next_position_def Let_def)
  next
    case False
    then have "sint goal - sint cur \<le> sint R" using d by (simp add: word_sless_alt)
    with False nz r0 cnp pos show ?thesis by (simp add: next_position_def Let_def)
  qed
qed

text \<open>
  Downwards, with a positive speed, one step always subtracts the whole speed, however close
  the goal is.
\<close>

lemma next_position_down:
  assumes "0 <s R" "0 \<le>s goal" "goal <s cur"
  shows "next_position R goal cur = cur - R \<and> sint (cur - R) = sint cur - sint R"
proof -
  from assms have r: "0 < sint R" and g0: "0 \<le> sint goal" and g: "sint goal < sint cur"
    by (simp_all add: word_sle_eq word_sless_alt)
  have d: "sint (goal - cur) = sint goal - sint cur"
    using g0 g sint_bounds16 [of cur] by (intro sint_sub_in_range) linarith+
  have nz: "goal - cur \<noteq> 0" using g by auto
  have r0: "R \<noteq> 0" using r by auto
  have cnp: "cur \<noteq> SERVO_NO_PULSE" using g0 g by (auto simp: SERVO_NO_PULSE_def)
  have npos: "\<not> 0 <s goal - cur" using d g by (simp add: word_sless_alt)
  have lt: "goal - cur <s R" using d g r by (simp add: word_sless_alt)
  have "sint (cur - R) = sint cur - sint R"
    using g0 g r sint_bounds16 [of cur] sint_bounds16 [of R] by (intro sint_sub_in_range) linarith+
  with nz r0 cnp npos lt show ?thesis by (simp add: next_position_def Let_def)
qed

section \<open>sequencer.c: moving up to the goal\<close>

lemma dosequence_moves_fields:
  "seq_goal ((dosequence_move array ^^ n) s) = seq_goal s
   \<and> maxspeed_of array ((dosequence_move array ^^ n) s) k = maxspeed_of array s k
   \<and> (length (seq_current s) = SERVO_NUM \<longrightarrow>
        length (seq_current ((dosequence_move array ^^ n) s)) = SERVO_NUM)"
  by (induction n) (simp_all add: dosequence_move_fields dosequence_move_current_length)

text \<open>
  Iterating the movement loop with the goal above the start \<open>P0\<close>: after \<open>n\<close> rounds the
  position is \<open>P0 + n * R\<close> capped at the goal, so the goal is reached exactly from round
  \<open>ceil(D / R)\<close> on.
\<close>

lemma dosequence_moves_up:
  assumes "k < SERVO_NUM" "length (seq_current s) = SERVO_NUM"
    and "0 <s maxspeed_of array s k" "0 \<le>s seq_current s ! k"
    and "seq_current s ! k \<le>s seq_goal s ! k"
  shows "sint (seq_current ((dosequence_move array ^^ n) s) ! k) =
           min (sint (seq_current s ! k) + int n * sint (maxspeed_of array s k))
               (sint (seq_goal s ! k))"
proof (induction n)
  case 0
  from assms(5) show ?case by (simp add: word_sle_eq)
next
  case (Suc n)
  let ?t = "(dosequence_move array ^^ n) s"
  let ?R = "maxspeed_of array s k"
  have r: "0 < sint ?R" using assms(3) by (simp add: word_sless_alt)
  have c0: "0 \<le> sint (seq_current s ! k)" using assms(4) by (simp add: word_sle_eq)
  have f: "seq_goal ?t = seq_goal s" "maxspeed_of array ?t k = ?R"
    "length (seq_current ?t) = SERVO_NUM"
    using dosequence_moves_fields [where array = array and n = n and s = s and k = k] assms(2)
    by simp_all
  have step: "seq_current (dosequence_move array ?t) ! k =
      next_position ?R (seq_goal s ! k) (seq_current ?t ! k)"
    using dosequence_move_current [OF assms(1) f(3), of array] f(1,2) by simp
  have nn: "0 \<le> int n * sint ?R" using r by simp
  show ?case
  proof (cases "seq_current ?t ! k = seq_goal s ! k")
    case True
    then have "sint (seq_goal s ! k) \<le> sint (seq_current s ! k) + int n * sint ?R"
      using Suc by simp
    then have "sint (seq_goal s ! k) \<le> sint (seq_current s ! k) + int (Suc n) * sint ?R"
      using r by (simp add: algebra_simps)
    with True show ?thesis by (simp add: step next_position_at_goal)
  next
    case False
    then have "sint (seq_current ?t ! k) \<noteq> sint (seq_goal s ! k)"
      using signed_word_eqI [of "seq_current ?t ! k" "seq_goal s ! k"] by blast
    with Suc have lt: "sint (seq_current ?t ! k) < sint (seq_goal s ! k)"
      and eq: "sint (seq_current ?t ! k) = sint (seq_current s ! k) + int n * sint ?R"
      by (auto simp: min_def split: if_splits)
    have "0 \<le>s seq_current ?t ! k" using eq c0 nn by (simp add: word_sle_eq)
    moreover have "seq_current ?t ! k <s seq_goal s ! k" using lt by (simp add: word_sless_alt)
    ultimately have "sint (next_position ?R (seq_goal s ! k) (seq_current ?t ! k)) =
        min (sint (seq_current ?t ! k) + sint ?R) (sint (seq_goal s ! k))"
      using assms(3) by (intro next_position_up)
    with eq show ?thesis by (simp add: step algebra_simps)
  qed
qed

lemma dosequence_moves_up_reaches:
  assumes "k < SERVO_NUM" "length (seq_current s) = SERVO_NUM"
    and "0 <s maxspeed_of array s k" "0 \<le>s seq_current s ! k"
    and "seq_current s ! k \<le>s seq_goal s ! k"
  shows "seq_current ((dosequence_move array ^^ n) s) ! k = seq_goal s ! k
         \<longleftrightarrow> sint (seq_goal s ! k) - sint (seq_current s ! k)
               \<le> int n * sint (maxspeed_of array s k)"
proof -
  have "seq_current ((dosequence_move array ^^ n) s) ! k = seq_goal s ! k
        \<longleftrightarrow> sint (seq_current ((dosequence_move array ^^ n) s) ! k) = sint (seq_goal s ! k)"
    by (auto intro: signed_word_eqI)
  then show ?thesis
    unfolding dosequence_moves_up [OF assms] by (auto simp: min_def)
qed


section \<open>sequencer.c: the last frame, looping and halting\<close>

lemma dosequence_move_goal_length:
  "length (seq_goal (dosequence_move array s)) = length (seq_goal s)"
  by (simp add: dosequence_move_fields)

lemma seq_dosequence_stopped: "sequence_started s = 0 \<Longrightarrow> seq_dosequence s = s"
  by (simp add: seq_dosequence_def)

lemma seq_ticks_stopped:
  "sequence_started s = 0 \<Longrightarrow>
     sequence_started ((seq_tick ^^ n) s) = 0 \<and> callback_log ((seq_tick ^^ n) s) = callback_log s"
proof (induction n)
  case 0
  then show ?case by simp
next
  case (Suc n)
  then have "sequence_started ((seq_tick ^^ n) s) = 0" by simp
  then have "seq_tick ((seq_tick ^^ n) s) =
      (if seq_timeout ((seq_tick ^^ n) s) \<noteq> 0
       then ((seq_tick ^^ n) s)\<lparr>seq_timeout := seq_timeout ((seq_tick ^^ n) s) - 1\<rparr>
       else (seq_tick ^^ n) s)"
    unfolding seq_tick_def by (intro seq_dosequence_stopped) simp
  with Suc show ?case by simp
qed

text \<open>
  Claim C8. On the last frame of a table whose last duration is not zero, with the frame
  timer at zero, \<open>seq_dosequence\<close> commits the frame's targets, reloads \<open>seq_timeout\<close> with
  that duration and sets \<open>sequence_step\<close> back to 0, the run flag staying set and no callback
  being called; and in any state bound to such a table, no number of ticks ever calls the
  completion callback or changes the run flag.
\<close>

theorem seq_dosequence_looping_frame:
  "(sequence_started s \<noteq> 0 \<and> sequence_array s = Some array \<and> 0 < sequence_length s
      \<and> \<not> int (sequence_step s) < int (sequence_length s) - 1 \<and> seq_timeout s = 0
      \<and> pgm_read_word array (sequence_length s - 1) 0 \<noteq> 0
      \<and> length (seq_goal s) = SERVO_NUM \<longrightarrow>
        seq_timeout (seq_dosequence s) = pgm_read_word array (sequence_length s - 1) 0
      \<and> sequence_step (seq_dosequence s) = 0
      \<and> sequence_started (seq_dosequence s) \<noteq> 0
      \<and> callback_log (seq_dosequence s) = callback_log s
      \<and> (\<forall>k<SERVO_NUM. \<not> skip_servo array (sequence_length s - 1) (k + 1) \<longrightarrow>
            seq_goal (seq_dosequence s) ! k = pgm_read_word array (sequence_length s - 1) (k + 1)))
   \<and> (sequence_array s = Some array \<and> 0 < sequence_length s
      \<and> pgm_read_word array (sequence_length s - 1) 0 \<noteq> 0 \<longrightarrow>
        callback_log ((seq_tick ^^ n) s) = callback_log s
      \<and> sequence_started ((seq_tick ^^ n) s) = sequence_started s)"
proof (intro conjI impI)
  assume h: "sequence_started s \<noteq> 0 \<and> sequence_array s = Some array \<and> 0 < sequence_length s
      \<and> \<not> int (sequence_step s) < int (sequence_length s) - 1 \<and> seq_timeout s = 0
      \<and> pgm_read_word array (sequence_length s - 1) 0 \<noteq> 0
      \<and> length (seq_goal s) = SERVO_NUM"
  then have eq: "seq_dosequence s =
           (seq_setservopos array (sequence_length s - 1) (dosequence_move array s))
             \<lparr>seq_timeout := pgm_read_word array (sequence_length s - 1) 0, sequence_step := 0\<rparr>"
    by (intro seq_dosequence_last_loop) simp_all
  show "seq_timeout (seq_dosequence s) = pgm_read_word array (sequence_length s - 1) 0"
    by (simp add: eq)
  show "sequence_step (seq_dosequence s) = 0"
    by (simp add: eq)
  show "sequence_started (seq_dosequence s) \<noteq> 0"
    using h by (simp add: eq seq_setservopos_fields dosequence_move_fields)
  show "callback_log (seq_dosequence s) = callback_log s"
    by (simp add: eq seq_setservopos_fields dosequence_move_fields)
  show "\<forall>k<SERVO_NUM. \<not> skip_servo array (sequence_length s - 1) (k + 1) \<longrightarrow>
            seq_goal (seq_dosequence s) ! k = pgm_read_word array (sequence_length s - 1) (k + 1)"
    using h by (simp add: eq seq_setservopos_goal dosequence_move_goal_length)
next
  assume "sequence_array s = Some array \<and> 0 < sequence_length s
      \<and> pgm_read_word array (sequence_length s - 1) 0 \<noteq> 0"
  then have "sequence_array s = Some array" "pgm_read_word array (sequence_length s - 1) 0 \<noteq> 0"
    by simp_all
  from seq_ticks_looping [OF this, of n]
  show "callback_log ((seq_tick ^^ n) s) = callback_log s"
    and "sequence_started ((seq_tick ^^ n) s) = sequence_started s"
    by simp_all
qed

theorem seq_dosequence_looping_frame_witness:
  "seq_timeout (seq_dosequence ex_looping_state) = 7
   \<and> sequence_step (seq_dosequence ex_looping_state) = 0
   \<and> sequence_started (seq_dosequence ex_looping_state) \<noteq> 0
   \<and> callback_log (seq_dosequence ex_looping_state) = []
   \<and> seq_goal (seq_dosequence ex_looping_state) ! 4 = 1000
   \<and> callback_log ((seq_tick ^^ 1000) ex_looping_state) = []
   \<and> sequence_started ((seq_tick ^^ 1000) ex_looping_state) = 1"
  using seq_dosequence_looping_frame [of ex_looping_state ex_looping_table 1000]
  by (simp add: ex_looping_state_def ex_looping_table_def ex_state_def pgm_read_word_def
      skip_servo_def SERVO_NUM_def START_SERVO_PARAM_def END_SERVO_PARAM_def SEQUENCE_ROW_def
      SEQUENCE_PARAMETERS_def)

text \<open>
  The duration-0 branch of the last frame: the frame's targets are committed, the run flag
  is cleared, \<open>sequence_step\<close> is reset and the registered callback is called, all in this
  one call; in later ticks the run flag stays cleared and the callback is not called again.
\<close>

lemma seq_dosequence_halting_frame:
  assumes "sequence_started s \<noteq> 0" "sequence_array s = Some array" "0 < sequence_length s"
    and "\<not> int (sequence_step s) < int (sequence_length s) - 1" "seq_timeout s = 0"
    and "pgm_read_word array (sequence_length s - 1) 0 = 0"
    and "length (seq_goal s) = SERVO_NUM"
  shows "sequence_started (seq_dosequence s) = 0
       \<and> sequence_step (seq_dosequence s) = 0
       \<and> callback_log (seq_dosequence s) =
           callback_log s @ (if seq_completion_callback s \<noteq> 0 then [seq_completion_callback s] else [])
       \<and> (\<forall>k<SERVO_NUM. \<not> skip_servo array (sequence_length s - 1) (k + 1) \<longrightarrow>
            seq_goal (seq_dosequence s) ! k = pgm_read_word array (sequence_length s - 1) (k + 1))
       \<and> sequence_started ((seq_tick ^^ n) (seq_dosequence s)) = 0
       \<and> callback_log ((seq_tick ^^ n) (seq_dosequence s)) = callback_log (seq_dosequence s)"
proof -
  have eq: "seq_dosequence s =
           call_completion_callback
             ((seq_setservopos array (sequence_length s - 1) (dosequence_move array s))
                \<lparr>sequence_started := 0, sequence_step := 0\<rparr>)"
    using assms by (intro seq_dosequence_last_halt) simp_all
  have st: "sequence_started (seq_dosequence s) = 0"
    by (simp add: eq call_completion_callback_def)
  have "sequence_step (seq_dosequence s) = 0"
    by (simp add: eq call_completion_callback_def)
  moreover have "callback_log (seq_dosequence s) =
      callback_log s @ (if seq_completion_callback s \<noteq> 0 then [seq_completion_callback s] else [])"
    by (simp add: eq call_completion_callback_def seq_setservopos_fields dosequence_move_fields)
  moreover have "\<forall>k<SERVO_NUM. \<not> skip_servo array (sequence_length s - 1) (k + 1) \<longrightarrow>
            seq_goal (seq_dosequence s) ! k = pgm_read_word array (sequence_length s - 1) (k + 1)"
    using assms(7)
    by (simp add: eq call_completion_callback_def seq_setservopos_goal dosequence_move_goal_length)
  ultimately show ?thesis using st seq_ticks_stopped [OF st, of n] by simp
qed

lemma seq_dosequence_halting_frame_example:
  "sequence_started (seq_dosequence ex_last_frame_state) = 0
   \<and> sequence_step (seq_dosequence ex_last_frame_state) = 0
   \<and> callback_log (seq_dosequence ex_last_frame_state) = [42]
   \<and> seq_goal (seq_dosequence ex_last_frame_state) ! 4 = 1000
   \<and> sequence_started ((seq_tick ^^ 1000) (seq_dosequence ex_last_frame_state)) = 0
   \<and> callback_log ((seq_tick ^^ 1000) (seq_dosequence ex_last_frame_state)) = [42]"
  using seq_dosequence_halting_frame [of ex_last_frame_state ex_halting_table 1000]
  by (simp add: ex_last_frame_state_def ex_halting_table_def ex_state_def pgm_read_word_def
      skip_servo_def SERVO_NUM_def START_SERVO_PARAM_def END_SERVO_PARAM_def SEQUENCE_ROW_def
      SEQUENCE_PARAMETERS_def)


text \<open>Once the run flag is cleared, ticks leave the positions and the pulse values alone.\<close>

lemma seq_ticks_stopped_positions:
  "sequence_started s = 0 \<Longrightarrow>
     sequence_started ((seq_tick ^^ n) s) = 0
     \<and> seq_current ((seq_tick ^^ n) s) = seq_current s
     \<and> seq_goal ((seq_tick ^^ n) s) = seq_goal s
     \<and> servo_value ((seq_tick ^^ n) s) = servo_value s"
proof (induction n)
  case 0
  then show ?case by simp
next
  case (Suc n)
  then have "sequence_started ((seq_tick ^^ n) s) = 0" by simp
  then have "seq_tick ((seq_tick ^^ n) s) =
      (if seq_timeout ((seq_tick ^^ n) s) \<noteq> 0
       then ((seq_tick ^^ n) s)\<lparr>seq_timeout := seq_timeout ((seq_tick ^^ n) s) - 1\<rparr>
       else (seq_tick ^^ n) s)"
    unfolding seq_tick_def by (intro seq_dosequence_stopped) simp
  with Suc show ?case by simp
qed

text \<open>
  Claim C4 fails on the code: the halt does not wait for the goals to be reached. In this run
  (the halting table loaded and started without speed limits, servos at 1500) the first
  tick commits the goal 2000 of frame 0; the second tick moves servo 1 to 2000 and then,
  on the last frame, commits the goal 1000, clears the run flag and calls the callback in
  the same call. Servo 1 is at 2000 when the sequence halts and is still there 1000 ticks
  later: the last frame's target is never commanded. The source notes this itself next to
  the halting branch ("this has a problem, means that the sequence is stopped before the
  servos actually reach their goal position").
\<close>

theorem seq_halts_before_last_goal:
  "sequence_started ((seq_tick ^^ 1) ex_halting_run) = 1
   \<and> seq_goal ((seq_tick ^^ 1) ex_halting_run) ! 0 = 2000
   \<and> sequence_started ((seq_tick ^^ 2) ex_halting_run) = 0
   \<and> callback_log ((seq_tick ^^ 2) ex_halting_run) = [42]
   \<and> seq_goal ((seq_tick ^^ 2) ex_halting_run) ! 0 = 1000
   \<and> seq_current ((seq_tick ^^ 2) ex_halting_run) ! 0 = 2000
   \<and> servo_read 1 (servo_value ((seq_tick ^^ 2) ex_halting_run)) = 2000
   \<and> seq_goal ((seq_tick ^^ 1000) ((seq_tick ^^ 2) ex_halting_run)) ! 0 = 1000
   \<and> seq_current ((seq_tick ^^ 1000) ((seq_tick ^^ 2) ex_halting_run)) ! 0 = 2000
   \<and> servo_read 1 (servo_value ((seq_tick ^^ 1000) ((seq_tick ^^ 2) ex_halting_run))) = 2000"
proof -
  have run: "sequence_started ((seq_tick ^^ 1) ex_halting_run) = 1
   \<and> seq_goal ((seq_tick ^^ 1) ex_halting_run) ! 0 = 2000
   \<and> sequence_started ((seq_tick ^^ 2) ex_halting_run) = 0
   \<and> callback_log ((seq_tick ^^ 2) ex_halting_run) = [42]
   \<and> seq_goal ((seq_tick ^^ 2) ex_halting_run) ! 0 = 1000
   \<and> seq_current ((seq_tick ^^ 2) ex_halting_run) ! 0 = 2000
   \<and> servo_read 1 (servo_value ((seq_tick ^^ 2) ex_halting_run)) = 2000"
    by code_simp
  then have "sequence_started ((seq_tick ^^ 2) ex_halting_run) = 0" by simp
  from seq_ticks_stopped_positions [OF this, of 1000] run show ?thesis by simp
qed

end
